theory Spec2Isabelle
  imports Main "HOL-Library.Multiset"
begin

section \<open>JavaScript strings\<close>

text \<open>
  A JavaScript string is a sequence of UTF-16 code units. The model keeps a string as the
  list of its code units, each a natural number; \<open>js\<close> reads an ASCII literal.
\<close>

type_synonym jstring = "nat list"

definition js :: "string \<Rightarrow> jstring" where
  "js s = map of_char s"

text \<open>
  \<open>String.prototype.trim\<close> removes leading and trailing WhiteSpace and LineTerminator
  code points (ECMA-262, 22.1.3.32): TAB, VT, FF, SP, NBSP, ZWNBSP, the category Zs,
  and LF, CR, LS, PS. All of them are single code units.
\<close>

definition is_js_space :: "nat \<Rightarrow> bool" where
  "is_js_space c \<longleftrightarrow>
     c = 9 \<or> c = 10 \<or> c = 11 \<or> c = 12 \<or> c = 13 \<or> c = 32 \<or> c = 160 \<or> c = 5760 \<or>
     (8192 \<le> c \<and> c \<le> 8202) \<or> c = 8232 \<or> c = 8233 \<or> c = 8239 \<or> c = 8287 \<or>
     c = 12288 \<or> c = 65279"

definition trim :: "jstring \<Rightarrow> jstring" where
  "trim s = rev (dropWhile is_js_space (rev (dropWhile is_js_space s)))"

text \<open>\<open>line.slice(6)\<close>: the string from index 6 on, empty when the line is shorter.\<close>

definition slice_from :: "nat \<Rightarrow> jstring \<Rightarrow> jstring" where
  "slice_from n s = drop n s"

text \<open>
  \<open>content.split('\n\n')\<close>: the pieces between the successive, non-overlapping
  occurrences of two line feeds, scanning from the left; the empty string gives one
  empty piece.
\<close>

fun split_acc :: "jstring \<Rightarrow> jstring \<Rightarrow> jstring list" where
  "split_acc acc [] = [rev acc]"
| "split_acc acc [c] = [rev (c # acc)]"
| "split_acc acc (c # d # cs) =
     (if c = 10 \<and> d = 10 then rev acc # split_acc [] cs
      else split_acc (c # acc) (d # cs))"

definition split_blank :: "jstring \<Rightarrow> jstring list" where
  "split_blank s = split_acc [] s"

section \<open>JSON.parse\<close>

datatype json =
    JNull
  | JBool bool
  | JNum jstring
  | JStr jstring
  | JArr "json list"
  | JObj "(jstring \<times> json) list"

datatype token =
    LBrace | RBrace | LBrack | RBrack | Colon | Comma
  | TStr jstring | TNum jstring | TTrue | TFalse | TNull

definition is_json_ws :: "nat \<Rightarrow> bool" where
  "is_json_ws c \<longleftrightarrow> c = 32 \<or> c = 9 \<or> c = 10 \<or> c = 13"

definition is_digit :: "nat \<Rightarrow> bool" where
  "is_digit c \<longleftrightarrow> 48 \<le> c \<and> c \<le> 57"

definition hex_val :: "nat \<Rightarrow> nat option" where
  "hex_val c =
     (if 48 \<le> c \<and> c \<le> 57 then Some (c - 48)
      else if 65 \<le> c \<and> c \<le> 70 then Some (c - 55)
      else if 97 \<le> c \<and> c \<le> 102 then Some (c - 87)
      else None)"

definition unescape :: "nat \<Rightarrow> nat option" where
  "unescape c =
     (if c = 34 then Some 34 else if c = 92 then Some 92 else if c = 47 then Some 47
      else if c = 98 then Some 8 else if c = 102 then Some 12 else if c = 110 then Some 10
      else if c = 114 then Some 13 else if c = 116 then Some 9 else None)"

definition hex4 :: "jstring \<Rightarrow> nat option" where
  "hex4 cs =
     (case map hex_val cs of
        [Some a, Some b, Some c, Some d] \<Rightarrow> Some (((a * 16 + b) * 16 + c) * 16 + d)
      | _ \<Rightarrow> None)"

fun lex_string :: "jstring \<Rightarrow> jstring \<Rightarrow> (jstring \<times> jstring) option" where
  "lex_string acc [] = None"
| "lex_string acc (c # cs) =
     (if c = 34 then Some (rev acc, cs)
      else if c = 92 then
        (case cs of
           [] \<Rightarrow> None
         | e # cs' \<Rightarrow>
             if e = 117 then
               (case hex4 (take 4 cs') of
                  None \<Rightarrow> None
                | Some u \<Rightarrow> lex_string (u # acc) (drop 4 cs'))
             else
               (case unescape e of
                  None \<Rightarrow> None
                | Some d \<Rightarrow> lex_string (d # acc) cs'))
      else if c < 32 then None
      else lex_string (c # acc) cs)"

definition lex_digits :: "jstring \<Rightarrow> (jstring \<times> jstring) option" where
  "lex_digits cs =
     (let ds = takeWhile is_digit cs
      in if ds = [] then None else Some (ds, dropWhile is_digit cs))"

definition lex_int :: "jstring \<Rightarrow> (jstring \<times> jstring) option" where
  "lex_int cs =
     (case cs of
        [] \<Rightarrow> None
      | c # cs' \<Rightarrow> if c = 48 then Some ([48], cs') else lex_digits cs)"

definition lex_frac :: "jstring \<Rightarrow> (jstring \<times> jstring) option" where
  "lex_frac cs =
     (case cs of
        [] \<Rightarrow> Some ([], cs)
      | c # cs' \<Rightarrow>
          if c = 46 then
            (case lex_digits cs' of None \<Rightarrow> None | Some (ds, r) \<Rightarrow> Some (c # ds, r))
          else Some ([], cs))"

definition lex_exp :: "jstring \<Rightarrow> (jstring \<times> jstring) option" where
  "lex_exp cs =
     (case cs of
        [] \<Rightarrow> Some ([], cs)
      | c # cs' \<Rightarrow>
          if c = 69 \<or> c = 101 then
            (case cs' of
               [] \<Rightarrow> None
             | s # cs'' \<Rightarrow>
                 if s = 43 \<or> s = 45 then
                   (case lex_digits cs'' of
                      None \<Rightarrow> None
                    | Some (ds, r) \<Rightarrow> Some (c # s # ds, r))
                 else
                   (case lex_digits cs' of
                      None \<Rightarrow> None
                    | Some (ds, r) \<Rightarrow> Some (c # ds, r)))
          else Some ([], cs))"

definition lex_number :: "jstring \<Rightarrow> (jstring \<times> jstring) option" where
  "lex_number cs =
     (let (sign, cs1) = (case cs of [] \<Rightarrow> ([], cs) | c # r \<Rightarrow> if c = 45 then ([c], r) else ([], cs))
      in case lex_int cs1 of
           None \<Rightarrow> None
         | Some (i, cs2) \<Rightarrow>
             (case lex_frac cs2 of
                None \<Rightarrow> None
              | Some (f, cs3) \<Rightarrow>
                  (case lex_exp cs3 of
                     None \<Rightarrow> None
                   | Some (e, cs4) \<Rightarrow> Some (sign @ i @ f @ e, cs4))))"


lemma lex_string_shorter: "lex_string acc cs = Some (s, r) \<Longrightarrow> length r < Suc (length cs)"
proof (induction acc cs rule: lex_string.induct)
  case (1 acc)
  then show ?case by simp
next
  case (2 acc c cs)
  show ?case
  proof (cases "c = 34 \<or> c \<noteq> 92")
    case True
    with 2 show ?thesis by (fastforce split: if_splits)
  next
    case False
    then have c: "c = 92" "c \<noteq> 34" by auto
    with "2.prems" obtain e cs' where cs: "cs = e # cs'" by (cases cs) auto
    show ?thesis
    proof (cases "e = 117")
      case True
      with c cs "2.prems" obtain u where u: "hex4 (take 4 cs') = Some u"
        and l: "lex_string (u # acc) (drop 4 cs') = Some (s, r)"
        by (auto split: option.splits)
      from "2.IH"(1) [OF c(2) c(1) cs True u l] cs show ?thesis by simp
    next
      case False
      with c cs "2.prems" obtain d where d: "unescape e = Some d"
        and l: "lex_string (d # acc) cs' = Some (s, r)"
        by (auto split: option.splits)
      from "2.IH"(2) [OF c(2) c(1) cs False d l] cs show ?thesis by simp
    qed
  qed
qed

lemma lex_digits_shorter: "lex_digits cs = Some (s, r) \<Longrightarrow> length r \<le> length cs"
  by (auto simp: lex_digits_def Let_def length_dropWhile_le split: if_splits)

lemma lex_int_shorter: "lex_int cs = Some (s, r) \<Longrightarrow> length r < length cs"
proof (cases cs)
  case Nil
  assume "lex_int cs = Some (s, r)"
  with Nil show ?thesis by (simp add: lex_int_def)
next
  case (Cons c cs')
  assume a: "lex_int cs = Some (s, r)"
  show ?thesis
  proof (cases "c = 48")
    case True
    with a Cons show ?thesis by (simp add: lex_int_def)
  next
    case False
    with a Cons have d: "lex_digits (c # cs') = Some (s, r)" by (simp add: lex_int_def)
    then have "is_digit c" by (auto simp: lex_digits_def Let_def split: if_splits)
    with d have "r = dropWhile is_digit cs'" by (auto simp: lex_digits_def Let_def)
    then show ?thesis using Cons by (simp add: length_dropWhile_le less_Suc_eq_le)
  qed
qed

lemma lex_frac_shorter: "lex_frac cs = Some (s, r) \<Longrightarrow> length r \<le> length cs"
  by (auto simp: lex_frac_def split: list.splits if_splits option.splits
        dest!: lex_digits_shorter)

lemma lex_exp_shorter: "lex_exp cs = Some (s, r) \<Longrightarrow> length r \<le> length cs"
  by (auto simp: lex_exp_def split: list.splits if_splits option.splits
        dest!: lex_digits_shorter)

lemma lex_number_shorter: "lex_number cs = Some (s, r) \<Longrightarrow> length r < length cs"
  by (auto simp: lex_number_def Let_def split: list.splits if_splits option.splits prod.splits
        dest!: lex_int_shorter lex_frac_shorter lex_exp_shorter)

text \<open>
  The tokens of a JSON text (ECMA-404): insignificant whitespace is dropped, the six
  structural characters, strings, numbers and the three literal names are recognised,
  anything else is a syntax error (\<open>None\<close>).
\<close>

function lex :: "jstring \<Rightarrow> token list option" where
  "lex [] = Some []"
| "lex (c # cs) =
     (if is_json_ws c then lex cs
      else if c = 123 then map_option (Cons LBrace) (lex cs)
      else if c = 125 then map_option (Cons RBrace) (lex cs)
      else if c = 91 then map_option (Cons LBrack) (lex cs)
      else if c = 93 then map_option (Cons RBrack) (lex cs)
      else if c = 58 then map_option (Cons Colon) (lex cs)
      else if c = 44 then map_option (Cons Comma) (lex cs)
      else if c = 34 then
        (case lex_string [] cs of
           None \<Rightarrow> None
         | Some (s, r) \<Rightarrow> map_option (Cons (TStr s)) (lex r))
      else if c = 45 \<or> is_digit c then
        (case lex_number (c # cs) of
           None \<Rightarrow> None
         | Some (n, r) \<Rightarrow> map_option (Cons (TNum n)) (lex r))
      else if take 4 (c # cs) = js ''true'' then map_option (Cons TTrue) (lex (drop 3 cs))
      else if take 5 (c # cs) = js ''false'' then map_option (Cons TFalse) (lex (drop 4 cs))
      else if take 4 (c # cs) = js ''null'' then map_option (Cons TNull) (lex (drop 3 cs))
      else None)"
  by pat_completeness auto
termination
proof (relation "measure length")
  show "wf (measure length)" by simp
next
  fix c cs x2 x y
  assume "lex_string [] cs = Some x2" "(x, y) = x2"
  then show "(y, c # cs) \<in> measure length"
    using lex_string_shorter [of "[]" cs x y] by simp
next
  fix c cs x2 x y
  assume "lex_number (c # cs) = Some x2" "(x, y) = x2"
  then show "(y, c # cs) \<in> measure length"
    using lex_number_shorter [of "c # cs" x y] by simp
qed simp_all

text \<open>
  The grammar of JSON values over the tokens, as a pushdown automaton: the stack holds
  the arrays and objects that are still open, innermost first.
\<close>

datatype opened =
    FArr "json list"
  | FObj "(jstring \<times> json) list" jstring

datatype pstate =
    Value "opened list"
  | FirstElem "opened list"
  | AfterElem "json list" "opened list"
  | FirstKey "opened list"
  | Key "(jstring \<times> json) list" "opened list"
  | AfterKey "(jstring \<times> json) list" jstring "opened list"
  | AfterMember "(jstring \<times> json) list" "opened list"
  | Finished json

fun add_value :: "json \<Rightarrow> opened list \<Rightarrow> pstate" where
  "add_value v [] = Finished v"
| "add_value v (FArr es # st) = AfterElem (v # es) st"
| "add_value v (FObj ms k # st) = AfterMember ((k, v) # ms) st"

fun begin_value :: "opened list \<Rightarrow> token \<Rightarrow> pstate option" where
  "begin_value st LBrace = Some (FirstKey st)"
| "begin_value st LBrack = Some (FirstElem st)"
| "begin_value st (TStr s) = Some (add_value (JStr s) st)"
| "begin_value st (TNum n) = Some (add_value (JNum n) st)"
| "begin_value st TTrue = Some (add_value (JBool True) st)"
| "begin_value st TFalse = Some (add_value (JBool False) st)"
| "begin_value st TNull = Some (add_value JNull st)"
| "begin_value st _ = None"

fun pstep :: "pstate \<Rightarrow> token \<Rightarrow> pstate option" where
  "pstep (Value st) t = begin_value st t"
| "pstep (FirstElem st) t =
     (if t = RBrack then Some (add_value (JArr []) st) else begin_value (FArr [] # st) t)"
| "pstep (AfterElem es st) t =
     (if t = Comma then Some (Value (FArr es # st))
      else if t = RBrack then Some (add_value (JArr (rev es)) st)
      else None)"
| "pstep (FirstKey st) t =
     (case t of
        RBrace \<Rightarrow> Some (add_value (JObj []) st)
      | TStr k \<Rightarrow> Some (AfterKey [] k st)
      | _ \<Rightarrow> None)"
| "pstep (Key ms st) t = (case t of TStr k \<Rightarrow> Some (AfterKey ms k st) | _ \<Rightarrow> None)"
| "pstep (AfterKey ms k st) t = (if t = Colon then Some (Value (FObj ms k # st)) else None)"
| "pstep (AfterMember ms st) t =
     (if t = Comma then Some (Key ms st)
      else if t = RBrace then Some (add_value (JObj (rev ms)) st)
      else None)"
| "pstep (Finished v) t = None"

fun prun :: "pstate \<Rightarrow> token list \<Rightarrow> pstate option" where
  "prun p [] = Some p"
| "prun p (t # ts) = (case pstep p t of None \<Rightarrow> None | Some p' \<Rightarrow> prun p' ts)"

text \<open>
  \<open>JSON.parse(text)\<close>: the value of a text that is exactly one JSON value, \<open>None\<close>
  where JavaScript throws a SyntaxError. A number is kept as its literal and an object as
  its members in the order of the text.
\<close>

definition JSON_parse :: "jstring \<Rightarrow> json option" where
  "JSON_parse s =
     (case lex s of
        None \<Rightarrow> None
      | Some ts \<Rightarrow> (case prun (Value []) ts of Some (Finished v) \<Rightarrow> Some v | _ \<Rightarrow> None))"


section \<open>The replay script\<close>

text \<open>
  The exceptions the script can end with: the SyntaxError of \<open>JSON.parse\<close>, the
  TypeError of a stream controller used after \<open>close()\<close> (ERR_INVALID_STATE), and the
  TypeError of \<open>fs.writeFileSync\<close> given \<open>undefined\<close> as data (ERR_INVALID_ARG_TYPE).
\<close>

datatype error = SyntaxError | InvalidState | InvalidArgType

text \<open>
  The default controller of the \<open>ReadableStream\<close> while \<open>start\<close> runs: nothing is read
  yet, so the chunks queue up; once \<open>close()\<close> was called, both \<open>close()\<close> and
  \<open>enqueue()\<close> throw.
\<close>

record controller =
  queue :: "json list"
  closeRequested :: bool

definition new_controller :: controller where
  "new_controller = \<lparr>queue = [], closeRequested = False\<rparr>"

definition enqueue :: "controller \<Rightarrow> json \<Rightarrow> error + controller" where
  "enqueue c v =
     (if closeRequested c then Inl InvalidState else Inr (c\<lparr>queue := queue c @ [v]\<rparr>))"

definition close :: "controller \<Rightarrow> error + controller" where
  "close c = (if closeRequested c then Inl InvalidState else Inr (c\<lparr>closeRequested := True\<rparr>))"

text \<open>The callback of \<open>forEach\<close> in \<open>start\<close>, on one piece of the split content.\<close>

definition on_line :: "controller \<Rightarrow> jstring \<Rightarrow> error + controller" where
  "on_line c line0 =
     (let line = trim line0 in
      if line = [] then Inr c
      else
        let message = slice_from 6 line in
        if message = js ''[DONE]'' then close c
        else
          (case JSON_parse message of
             None \<Rightarrow> Inl SyntaxError
           | Some v \<Rightarrow> enqueue c v))"

fun forEach :: "controller \<Rightarrow> jstring list \<Rightarrow> error + controller" where
  "forEach c [] = Inr c"
| "forEach c (l # ls) = (case on_line c l of Inl e \<Rightarrow> Inl e | Inr c' \<Rightarrow> forEach c' ls)"

definition start_lines :: "jstring list \<Rightarrow> error + controller" where
  "start_lines ls = forEach new_controller ls"

definition start :: "jstring \<Rightarrow> error + controller" where
  "start content = start_lines (split_blank content)"

text \<open>
  \<open>readUIMessageStream\<close> belongs to the package \<open>ai\<close>, not to the repository. It is taken
  as a parameter: a state \<open>s0\<close> and an update \<open>upd\<close> that, for each chunk read from the
  source stream, gives the snapshots written to the result stream and the next state, or
  no next state when the package fails on the chunk. After such a chunk the package reads
  no further chunk and ends its result stream itself. The function gives the snapshots
  written for the chunks of the queue, and whether the package has ended the result
  stream on one of them. When it has not, the result stream ends when the source stream
  has ended.
\<close>

fun readUIMessageStream ::
  "('s \<Rightarrow> json \<Rightarrow> 'o list \<times> 's option) \<Rightarrow> 's \<Rightarrow> json list \<Rightarrow> 'o list \<times> bool" where
  "readUIMessageStream upd s [] = ([], False)"
| "readUIMessageStream upd s (e # es) =
     (case upd s e of
        (out, None) \<Rightarrow> (out, True)
      | (out, Some s') \<Rightarrow>
          (case readUIMessageStream upd s' es of (outs, failed) \<Rightarrow> (out @ outs, failed)))"

text \<open>
  The \<open>while (true)\<close> loop over \<open>reader.read()\<close>: \<open>vs\<close> are the snapshots still to come
  and \<open>ended\<close> tells whether the result stream ends after them. A read on a stream that has no
  snapshot left and never ends stays pending, and the loop does not return: \<open>None\<close>.
  Otherwise the loop returns \<open>lastv\<close> (the variable \<open>last\<close> of the script), which is
  \<open>undefined\<close> (the inner \<open>None\<close>) when no snapshot was read.
\<close>

fun reader_loop :: "'o option \<Rightarrow> 'o list \<Rightarrow> bool \<Rightarrow> 'o option option" where
  "reader_loop lastv [] ended = (if ended then Some lastv else None)"
| "reader_loop lastv (v # vs) ended = reader_loop (Some v) vs ended"

text \<open>
  \<open>fs.writeFileSync('../standard.json', JSON.stringify(last, null, 2))\<close>:
  \<open>JSON.stringify(undefined)\<close> is \<open>undefined\<close>, which \<open>writeFileSync\<close> refuses; otherwise the
  file holds the serialisation of \<open>last\<close>, kept here as the value itself.
\<close>

definition writeFileSync :: "'o option \<Rightarrow> error + 'o" where
  "writeFileSync lastv = (case lastv of None \<Rightarrow> Inl InvalidArgType | Some v \<Rightarrow> Inr v)"

datatype 'o outcome = Written 'o | Raised error | Pending

text \<open>
  What the script does with the stream that \<open>start\<close> has filled: the package works
  through the queue, the loop reads its snapshots, and the last one is written.
\<close>

definition consume :: "('s \<Rightarrow> json \<Rightarrow> 'o list \<times> 's option) \<Rightarrow> 's \<Rightarrow> controller \<Rightarrow> 'o outcome" where
  "consume upd s0 c =
     (case readUIMessageStream upd s0 (queue c) of
        (snapshots, failed) \<Rightarrow>
          (case reader_loop None snapshots (failed \<or> closeRequested c) of
             None \<Rightarrow> Pending
           | Some lastv \<Rightarrow>
               (case writeFileSync lastv of Inl e \<Rightarrow> Raised e | Inr v \<Rightarrow> Written v)))"

definition script_lines ::
  "('s \<Rightarrow> json \<Rightarrow> 'o list \<times> 's option) \<Rightarrow> 's \<Rightarrow> jstring list \<Rightarrow> 'o outcome" where
  "script_lines upd s0 ls =
     (case start_lines ls of Inl e \<Rightarrow> Raised e | Inr c \<Rightarrow> consume upd s0 c)"

definition script ::
  "('s \<Rightarrow> json \<Rightarrow> 'o list \<times> 's option) \<Rightarrow> 's \<Rightarrow> jstring \<Rightarrow> 'o outcome" where
  "script upd s0 content = script_lines upd s0 (split_blank content)"

text \<open>
  Modelled from the spec: the merge strategy of the end-to-end scenario, which the
  repository does not contain. It "concatenates \<open>delta\<close> into a \<open>text\<close> field": an event
  with a string member \<open>delta\<close> extends the \<open>text\<close> of the state, and the new state is the
  snapshot written; any other event leaves the state as it is. The strategy fails on no
  event. The state starts empty.
\<close>

definition delta_of :: "json \<Rightarrow> jstring option" where
  "delta_of ev =
     (case ev of
        JObj ms \<Rightarrow> (case map_of ms (js ''delta'') of Some (JStr d) \<Rightarrow> Some d | _ \<Rightarrow> None)
      | _ \<Rightarrow> None)"

definition text_of :: "json \<Rightarrow> jstring" where
  "text_of st =
     (case st of
        JObj ms \<Rightarrow> (case map_of ms (js ''text'') of Some (JStr t) \<Rightarrow> t | _ \<Rightarrow> [])
      | _ \<Rightarrow> [])"

definition concat_delta :: "json \<Rightarrow> json \<Rightarrow> json list \<times> json option" where
  "concat_delta st ev =
     (case delta_of ev of
        None \<Rightarrow> ([], Some st)
      | Some d \<Rightarrow>
          (let st' = JObj [(js ''text'', JStr (text_of st @ d))] in ([st'], Some st')))"

definition empty_state :: json where
  "empty_state = JObj []"


subsection \<open>The frames of a content, as the specification words them\<close>

text \<open>
  The specification describes the parser as a pipeline: the records between blank
  lines, trimmed, the blank ones skipped; the payload of a record is what follows its
  six-character prefix; the payload \<open>[DONE]\<close> is the terminal frame and every other
  payload is parsed as JSON and emitted.
\<close>

definition records_of :: "jstring \<Rightarrow> jstring list" where
  "records_of content = filter (\<lambda>r. r \<noteq> []) (map trim (split_blank content))"

definition payloads :: "jstring \<Rightarrow> jstring list" where
  "payloads content = map (slice_from 6) (records_of content)"

datatype frame = Terminal | Payload jstring

definition frame_of :: "jstring \<Rightarrow> frame" where
  "frame_of p = (if p = js ''[DONE]'' then Terminal else Payload p)"

definition frames :: "jstring \<Rightarrow> frame list" where
  "frames content = map frame_of (payloads content)"

fun emit :: "controller \<Rightarrow> frame \<Rightarrow> error + controller" where
  "emit c Terminal = close c"
| "emit c (Payload p) =
     (case JSON_parse p of None \<Rightarrow> Inl SyntaxError | Some v \<Rightarrow> enqueue c v)"

fun emit_all :: "controller \<Rightarrow> frame list \<Rightarrow> error + controller" where
  "emit_all c [] = Inr c"
| "emit_all c (f # fs) = (case emit c f of Inl e \<Rightarrow> Inl e | Inr c' \<Rightarrow> emit_all c' fs)"

text \<open>The kinds of line the callback tells apart.\<close>

definition is_blank :: "jstring \<Rightarrow> bool" where
  "is_blank l \<longleftrightarrow> trim l = []"

definition is_terminal :: "jstring \<Rightarrow> bool" where
  "is_terminal l \<longleftrightarrow> trim l \<noteq> [] \<and> slice_from 6 (trim l) = js ''[DONE]''"

definition is_malformed :: "jstring \<Rightarrow> bool" where
  "is_malformed l \<longleftrightarrow>
     trim l \<noteq> [] \<and> slice_from 6 (trim l) \<noteq> js ''[DONE]'' \<and>
     JSON_parse (slice_from 6 (trim l)) = None"

subsection \<open>Properties of the loop in \<open>start\<close>\<close>

lemma forEach_append:
  "forEach c (xs @ ys) = (case forEach c xs of Inl e \<Rightarrow> Inl e | Inr c' \<Rightarrow> forEach c' ys)"
  by (induction xs arbitrary: c) (auto split: sum.splits)

lemma on_line_frame:
  "on_line c l =
     (if trim l = [] then Inr c else emit c (frame_of (slice_from 6 (trim l))))"
  by (simp add: on_line_def frame_of_def Let_def)

lemma forEach_emit_all:
  "forEach c ls =
     emit_all c (map frame_of (map (slice_from 6) (filter (\<lambda>r. r \<noteq> []) (map trim ls))))"
  by (induction ls arbitrary: c) (auto simp: on_line_frame split: sum.splits)





lemma on_line_closed:
  "closeRequested c \<Longrightarrow> on_line c l = Inr c' \<Longrightarrow> c' = c \<and> is_blank l"
  by (auto simp: on_line_def Let_def close_def enqueue_def is_blank_def
      split: if_splits option.splits)

lemma forEach_closed:
  "closeRequested c \<Longrightarrow> forEach c ls = Inr c' \<Longrightarrow> c' = c \<and> list_all is_blank ls"
proof (induction ls arbitrary: c)
  case Nil
  then show ?case by simp
next
  case (Cons l ls)
  from Cons.prems(2) obtain c1 where o: "on_line c l = Inr c1" and r: "forEach c1 ls = Inr c'"
    by (auto split: sum.splits)
  from on_line_closed [OF Cons.prems(1) o] have c1: "c1 = c" and b: "is_blank l" by auto
  from Cons.IH [OF Cons.prems(1)] r c1 b show ?case by simp
qed

lemma on_line_terminal:
  "is_terminal l \<Longrightarrow> on_line c l = Inr c' \<Longrightarrow> closeRequested c'"
  by (auto simp: on_line_def Let_def close_def is_terminal_def split: if_splits)

lemma on_line_malformed:
  "is_malformed l \<Longrightarrow> on_line c l = Inl SyntaxError"
  by (simp add: on_line_def Let_def is_malformed_def)




lemma reader_loop_ended:
  "reader_loop lastv vs True = Some (if vs = [] then lastv else Some (last vs))"
  by (induction vs arbitrary: lastv) auto


subsection \<open>Evaluation on concrete contents\<close>

lemmas string_eval = js_def split_blank_def trim_def is_js_space_def slice_from_def
lemmas json_eval = JSON_parse_def is_json_ws_def is_digit_def hex4_def hex_val_def unescape_def
  lex_number_def lex_int_def lex_frac_def lex_exp_def lex_digits_def
lemmas start_eval = start_def start_lines_def new_controller_def on_line_def close_def
  enqueue_def
lemmas script_eval = script_def script_lines_def consume_def writeFileSync_def concat_delta_def
  delta_of_def
  text_of_def empty_state_def Let_def

lemma start_frames: "start content = emit_all new_controller (frames content)"
  by (simp add: start_def start_lines_def forEach_emit_all frames_def payloads_def
      records_of_def)


lemma payloads_two_records:
  \<open>payloads (js ''data: {"delta":"He"}'' @ [10, 10, 10, 10] @ js '' data: [DONE] '') =
     [js ''{"delta":"He"}'', js ''[DONE]'']\<close>
  by (simp add: payloads_def records_of_def string_eval)

subsection \<open>Properties of the reading of the stream\<close>


lemma consume_closed: "closeRequested c \<Longrightarrow> consume upd s0 c \<noteq> Pending"
  by (cases "readUIMessageStream upd s0 (queue c)")
    (simp add: consume_def reader_loop_ended writeFileSync_def)

lemma forEach_closed_fails:
  "closeRequested c \<Longrightarrow> \<not> list_all is_blank ls \<Longrightarrow>
     forEach c ls = Inl InvalidState \<or> forEach c ls = Inl SyntaxError"
proof (induction ls)
  case Nil
  then show ?case by simp
next
  case (Cons l ls)
  show ?case
  proof (cases "is_blank l")
    case True
    then have "on_line c l = Inr c" by (simp add: on_line_def is_blank_def)
    with Cons True show ?thesis by simp
  next
    case False
    with Cons.prems(1) have "on_line c l = Inl InvalidState \<or> on_line c l = Inl SyntaxError"
      by (auto simp: on_line_def Let_def close_def enqueue_def is_blank_def
          split: option.splits)
    then show ?thesis by auto
  qed
qed



section \<open>The claims about the replay script\<close>



text \<open>
  C2, as stated: the three records \<open>A:{"delta":"He"}\<close>, \<open>A:{"delta":"llo"}\<close> and
  \<open>A:[DONE]\<close> reduce to \<open>{"text":"Hello"}\<close>. The prefix \<open>A:\<close> has two characters
  and the script removes six, so the first payload is \<open>lta":"He"}\<close> and \<open>JSON.parse\<close>
  throws.
\<close>

theorem scenario_prefix2_counterexample:
  \<open>script concat_delta empty_state
     (js ''A:{"delta":"He"}'' @ [10, 10] @ js ''A:{"delta":"llo"}'' @ [10, 10] @ js ''A:[DONE]'') =
   Raised SyntaxError\<close>
  by (simp add: string_eval json_eval start_eval script_eval)

text \<open>
  C2, amended: with a prefix of six characters, the records \<open>data: {"delta":"He"}\<close>,
  \<open>data: {"delta":"llo"}\<close> and \<open>data: [DONE]\<close>, separated by blank lines, are parsed
  and reduced with the concatenating merge strategy, and the script ends successfully
  with the final state \<open>{"text":"Hello"}\<close>.
\<close>

theorem scenario_prefix6:
  \<open>script concat_delta empty_state
     (js ''data: {"delta":"He"}'' @ [10, 10] @ js ''data: {"delta":"llo"}'' @ [10, 10] @
      js ''data: [DONE]'') =
   Written (JObj [(js ''text'', JStr (js ''Hello''))])\<close>
  by (simp add: string_eval json_eval start_eval script_eval)





text \<open>
  C4, amended: when a record that is not terminal has a payload that is not valid JSON,
  \<open>start\<close> fails and nothing after that record is looked at: the outcome is the one of
  the records up to it. When the records before it were processed without an exception,
  the failure is the SyntaxError of \<open>JSON.parse\<close>, which names no record offset.
\<close>

theorem malformed_fails_fast:
  assumes "split_blank content = pre @ r # post" and "is_malformed r"
  shows "start content = start_lines (pre @ [r]) \<and>
         (\<exists>e. start content = Inl e) \<and>
         (\<forall>c. start_lines pre = Inr c \<longrightarrow> start content = Inl SyntaxError)"
proof -
  have bad: "on_line c r = Inl SyntaxError" for c
    using assms(2) by (rule on_line_malformed)
  have eq: "forEach new_controller (pre @ r # post) = forEach new_controller (pre @ [r])"
    by (simp add: forEach_append bad split: sum.splits)
  have fails: "\<exists>e. forEach new_controller (pre @ r # post) = Inl e"
    by (cases "forEach new_controller pre") (simp_all add: forEach_append bad)
  have syn: "forEach new_controller (pre @ r # post) = Inl SyntaxError"
    if "forEach new_controller pre = Inr c" for c
    using that by (simp add: forEach_append bad)
  from eq fails syn show ?thesis
    by (simp add: start_def start_lines_def assms(1))
qed

theorem malformed_fails_fast_witness:
  \<open>split_blank (js ''data: 1'' @ [10, 10] @ js ''data: {'' @ [10, 10] @ js ''data: 2'') =
     [js ''data: 1''] @ js ''data: {'' # [js ''data: 2''] \<and>
   is_malformed (js ''data: {'') \<and>
   start_lines [js ''data: 1''] = Inr \<lparr>queue = [JNum (js ''1'')], closeRequested = False\<rparr> \<and>
   start (js ''data: 1'' @ [10, 10] @ js ''data: {'' @ [10, 10] @ js ''data: 2'') = Inl SyntaxError\<close>
proof -
  have s: \<open>split_blank (js ''data: 1'' @ [10, 10] @ js ''data: {'' @ [10, 10] @ js ''data: 2'') =
     [js ''data: 1''] @ js ''data: {'' # [js ''data: 2'']\<close>
    by (simp add: string_eval)
  have m: \<open>is_malformed (js ''data: {'')\<close>
    by (simp add: is_malformed_def string_eval json_eval)
  have p: \<open>start_lines [js ''data: 1''] = Inr \<lparr>queue = [JNum (js ''1'')], closeRequested = False\<rparr>\<close>
    by (simp add: string_eval json_eval start_eval)
  from malformed_fails_fast [OF s m, THEN conjunct2, THEN conjunct2, rule_format, OF p] s m p
  show ?thesis by blast
qed

text \<open>
  C4, as stated, promises a parse error for every input with a malformed record; after
  \<open>[DONE]\<close> the well-formed record \<open>data: 1\<close> already makes \<open>enqueue\<close> throw its
  TypeError, and the malformed record behind it is never reached.
\<close>

theorem malformed_after_terminal_counterexample:
  \<open>is_malformed (js ''data: {'') \<and>
   split_blank (js ''data: [DONE]'' @ [10, 10] @ js ''data: 1'' @ [10, 10] @ js ''data: {'') =
     [js ''data: [DONE]'', js ''data: 1'', js ''data: {''] \<and>
   start (js ''data: [DONE]'' @ [10, 10] @ js ''data: 1'' @ [10, 10] @ js ''data: {'') =
     Inl InvalidState\<close>
  by (simp add: is_malformed_def string_eval json_eval start_eval)

text \<open>
  C5, amended: at most one terminal sentinel ends the stream, and no event after it is
  merged into the state. When only blank records follow the terminal record, the outcome
  is the one of the records up to it. When any other record follows it, an event or a
  second sentinel, \<open>start\<close> throws and no final state is obtained: where the records up
  to the terminal one ran without an exception, it is the TypeError of the closed
  controller, or the SyntaxError of \<open>JSON.parse\<close> for a malformed payload. In no case does
  the script stay pending.
\<close>

theorem records_after_terminal:
  assumes "split_blank content = pre @ d # post" and "is_terminal d"
  shows "(list_all is_blank post \<longrightarrow>
            start content = start_lines (pre @ [d]) \<and>
            script upd s0 content = script_lines upd s0 (pre @ [d])) \<and>
         (\<not> list_all is_blank post \<longrightarrow>
            (\<exists>e. start content = Inl e \<and> script upd s0 content = Raised e) \<and>
            (\<forall>c. start_lines (pre @ [d]) = Inr c \<longrightarrow>
               start content = Inl InvalidState \<or> start content = Inl SyntaxError)) \<and>
         script upd s0 content \<noteq> Pending"
proof -
  have run: "start_lines (pre @ d # post) =
      (case start_lines (pre @ [d]) of Inl e \<Rightarrow> Inl e | Inr c \<Rightarrow> forEach c post)"
    by (simp add: start_lines_def forEach_append split: sum.splits)
  have closed: "closeRequested c" if "start_lines (pre @ [d]) = Inr c" for c
  proof -
    from that obtain c1 where "on_line c1 d = Inr c"
      by (auto simp: start_lines_def forEach_append split: sum.splits)
    from on_line_terminal [OF assms(2) this] show ?thesis .
  qed
  have blank: "forEach c post = Inr c" if "list_all is_blank post" for c
    using that by (induction post) (simp_all add: on_line_def is_blank_def)
  have a: "start_lines (pre @ d # post) = start_lines (pre @ [d])" if "list_all is_blank post"
    using blank [OF that] by (simp add: run split: sum.splits)
  have b: "start_lines (pre @ d # post) = Inl InvalidState \<or>
      start_lines (pre @ d # post) = Inl SyntaxError"
    if "\<not> list_all is_blank post" and "start_lines (pre @ [d]) = Inr c" for c
    using forEach_closed_fails [OF closed [OF that(2)] that(1)] that(2) by (simp add: run)
  have c: "\<exists>e. start_lines (pre @ d # post) = Inl e" if "\<not> list_all is_blank post"
  proof (cases "start_lines (pre @ [d])")
    case (Inl e)
    then show ?thesis by (simp add: run)
  next
    case (Inr c)
    from b [OF that Inr] show ?thesis by auto
  qed
  have d: "script_lines upd s0 (pre @ d # post) \<noteq> Pending"
  proof (cases "list_all is_blank post")
    case True
    show ?thesis
    proof (cases "start_lines (pre @ [d])")
      case (Inl e)
      with a [OF True] show ?thesis by (simp add: script_lines_def)
    next
      case (Inr c)
      with a [OF True] consume_closed [OF closed [OF Inr], of upd s0] show ?thesis
        by (simp add: script_lines_def)
    qed
  next
    case False
    from c [OF False] show ?thesis by (auto simp: script_lines_def)
  qed
  from a b c d show ?thesis
    by (auto simp: start_def script_def script_lines_def assms(1))
qed

theorem records_after_terminal_witness:
  \<open>split_blank (js ''data: 1'' @ [10, 10] @ js ''data: [DONE]'' @ [10, 10] @ js ''  '') =
     [js ''data: 1''] @ js ''data: [DONE]'' # [js ''  ''] \<and>
   is_terminal (js ''data: [DONE]'') \<and>
   list_all is_blank [js ''  ''] \<and>
   start (js ''data: 1'' @ [10, 10] @ js ''data: [DONE]'' @ [10, 10] @ js ''  '') =
     start_lines ([js ''data: 1''] @ [js ''data: [DONE]'']) \<and>
   split_blank (js ''data: 1'' @ [10, 10] @ js ''data: [DONE]'' @ [10, 10] @ js ''data: [DONE]'') =
     [js ''data: 1''] @ js ''data: [DONE]'' # [js ''data: [DONE]''] \<and>
   \<not> list_all is_blank [js ''data: [DONE]''] \<and>
   start_lines ([js ''data: 1''] @ [js ''data: [DONE]'']) =
     Inr \<lparr>queue = [JNum (js ''1'')], closeRequested = True\<rparr> \<and>
   start (js ''data: 1'' @ [10, 10] @ js ''data: [DONE]'' @ [10, 10] @ js ''data: [DONE]'') =
     Inl InvalidState\<close>
proof -
  have s1: \<open>split_blank (js ''data: 1'' @ [10, 10] @ js ''data: [DONE]'' @ [10, 10] @ js ''  '') =
     [js ''data: 1''] @ js ''data: [DONE]'' # [js ''  '']\<close>
    by (simp add: string_eval)
  have s2: \<open>split_blank (js ''data: 1'' @ [10, 10] @ js ''data: [DONE]'' @ [10, 10] @ js ''data: [DONE]'') =
     [js ''data: 1''] @ js ''data: [DONE]'' # [js ''data: [DONE]'']\<close>
    by (simp add: string_eval)
  have t: \<open>is_terminal (js ''data: [DONE]'')\<close>
    by (simp add: is_terminal_def string_eval)
  have b1: \<open>list_all is_blank [js ''  '']\<close>
    by (simp add: is_blank_def string_eval)
  have b2: \<open>\<not> list_all is_blank [js ''data: [DONE]'']\<close>
    by (simp add: is_blank_def string_eval)
  have p: \<open>start_lines ([js ''data: 1''] @ [js ''data: [DONE]'']) =
     Inr \<lparr>queue = [JNum (js ''1'')], closeRequested = True\<rparr>\<close>
    by (simp add: string_eval json_eval start_eval)
  have e: \<open>start (js ''data: 1'' @ [10, 10] @ js ''data: [DONE]'' @ [10, 10] @ js ''data: [DONE]'') \<noteq>
     Inl SyntaxError\<close>
    by (simp add: string_eval json_eval start_eval)
  from records_after_terminal [OF s1 t, THEN conjunct1, rule_format, OF b1, THEN conjunct1]
    records_after_terminal [OF s2 t, THEN conjunct2, THEN conjunct1, rule_format, OF b2,
      THEN conjunct2, rule_format, OF p]
    s1 s2 t b1 b2 p e
  show ?thesis by blast
qed

text \<open>
  C5, as stated, lets records follow the \<open>[DONE]\<close> record and promises a final state they
  do not contribute to. The records \<open>data: 1\<close> and \<open>data: [DONE]\<close> fill and close the
  stream; with the record \<open>data: 2\<close> after them, \<open>enqueue\<close> throws on the closed controller
  and the script ends with that TypeError, whatever the package does.
\<close>

theorem records_after_terminal_counterexample:
  \<open>start (js ''data: 1'' @ [10, 10] @ js ''data: [DONE]'') =
     Inr \<lparr>queue = [JNum (js ''1'')], closeRequested = True\<rparr> \<and>
   start (js ''data: 1'' @ [10, 10] @ js ''data: [DONE]'' @ [10, 10] @ js ''data: 2'') =
     Inl InvalidState \<and>
   script concat_delta empty_state
     (js ''data: 1'' @ [10, 10] @ js ''data: [DONE]'' @ [10, 10] @ js ''data: 2'') =
     Raised InvalidState\<close>
  by (simp add: string_eval json_eval start_eval script_eval)

text \<open>
  C10: when the only frame is the terminal sentinel, the read loop returns with \<open>last\<close>
  still undefined, and writing the file fails.
\<close>

theorem empty_stream_undefined:
  assumes "payloads content = [js ''[DONE]'']"
  shows "(\<exists>c. start content = Inr c \<and> queue c = [] \<and>
            reader_loop None (fst (readUIMessageStream upd s0 (queue c)))
              (snd (readUIMessageStream upd s0 (queue c)) \<or> closeRequested c) =
              Some None) \<and>
         script upd s0 content = Raised InvalidArgType"
proof -
  from assms have "frames content = [Terminal]"
    by (simp add: frames_def frame_of_def)
  then have s: "start content = Inr \<lparr>queue = [], closeRequested = True\<rparr>"
    by (simp add: start_frames close_def new_controller_def)
  then have "script upd s0 content = Raised InvalidArgType"
    by (simp add: script_def script_lines_def consume_def start_def writeFileSync_def)
  with s show ?thesis by simp
qed

theorem empty_stream_undefined_witness:
  \<open>payloads ([10, 10] @ js ''data: [DONE]'' @ [10, 10]) = [js ''[DONE]''] \<and>
   script concat_delta empty_state ([10, 10] @ js ''data: [DONE]'' @ [10, 10]) =
     Raised InvalidArgType\<close>
proof -
  have p: \<open>payloads ([10, 10] @ js ''data: [DONE]'' @ [10, 10]) = [js ''[DONE]'']\<close>
    by (simp add: payloads_def records_of_def string_eval)
  from empty_stream_undefined [OF p, of concat_delta empty_state] p
  show ?thesis by blast
qed

section \<open>The comparison script\<close>

text \<open>
  The second script reads two snapshots, hands them to the differ and prints the
  result. A record of the result has a type, a line number and a text; the script reads
  the three fields \<open>r.type\<close>, \<open>r.lineNumber\<close> and \<open>r.text\<close>, here \<open>rtype\<close>,
  \<open>lineNumber\<close> and \<open>rtext\<close>.
\<close>

datatype dtype = Equal | Add | Remove | Modify

record DiffRecord =
  rtype :: dtype
  lineNumber :: nat
  rtext :: jstring

text \<open>The text of a type, as the template literal prints it.\<close>

fun type_name :: "dtype \<Rightarrow> jstring" where
  "type_name Equal = js ''equal''"
| "type_name Add = js ''add''"
| "type_name Remove = js ''remove''"
| "type_name Modify = js ''modify''"

text \<open>The decimal digits of a line number, as the template literal prints it.\<close>

fun decimal :: "nat \<Rightarrow> jstring" where
  "decimal n = (if n < 10 then [48 + n] else decimal (n div 10) @ [48 + n mod 10])"

text \<open>
  \<open>console.log(a, b)\<close> with two strings, the first without a format specifier: one line,
  the two strings separated by a space.
\<close>

definition console_log :: "jstring \<Rightarrow> jstring \<Rightarrow> jstring" where
  "console_log a b = a @ js '' '' @ b"

text \<open>
  The two nested \<open>forEach\<close> loops; \<open>out\<close> holds the lines printed so far.
\<close>

fun report_records :: "jstring list \<Rightarrow> DiffRecord list \<Rightarrow> jstring list" where
  "report_records out [] = out"
| "report_records out (r # rs) =
     report_records
       (if rtype r \<noteq> Equal
        then out @ [console_log (decimal (lineNumber r) @ js '':'' @ type_name (rtype r)) (rtext r)]
        else out) rs"

fun report :: "jstring list \<Rightarrow> DiffRecord list list \<Rightarrow> jstring list" where
  "report out [] = out"
| "report out (res # ress) = report (report_records out res) ress"

lemma report_records_eq:
  "report_records out rs =
     out @ map (\<lambda>r. console_log (decimal (lineNumber r) @ js '':'' @ type_name (rtype r)) (rtext r))
             (filter (\<lambda>r. rtype r \<noteq> Equal) rs)"
  by (induction rs arbitrary: out) auto

lemma report_eq:
  "report out d =
     out @ map (\<lambda>r. console_log (decimal (lineNumber r) @ js '':'' @ type_name (rtype r)) (rtext r))
             (filter (\<lambda>r. rtype r \<noteq> Equal) (concat d))"
  by (induction d arbitrary: out) (auto simp: report_records_eq)

text \<open>
  C8: for every diff result, the report prints exactly one line for each record whose
  type is not \<open>equal\<close>, of the form \<open><lineNumber>:<type> <text>\<close>, in the order of the
  records, and prints nothing for a record of type \<open>equal\<close>.
\<close>

theorem report_lines:
  "report [] d =
     map (\<lambda>r. decimal (lineNumber r) @ js '':'' @ type_name (rtype r) @ js '' '' @ rtext r)
       (filter (\<lambda>r. rtype r \<noteq> Equal) (concat d)) \<and>
   length (report [] d) = length (filter (\<lambda>r. rtype r \<noteq> Equal) (concat d))"
  by (simp add: report_eq console_log_def)

section \<open>The tree differ of the specification\<close>

text \<open>
  The script builds its differ from the package \<open>json-diff-kit\<close>, whose code is not
  part of the repository; the options it passes are \<open>detectCircular: true\<close>,
  \<open>maxDepth: Infinity\<close>, \<open>showModifications: true\<close> and \<open>arrayDiffMethod: 'normal'\<close>. The
  differ and the aligner below follow sections 4.3 and 4.4 of the specification. A tree
  is a \<open>json\<close> value, so it is finite and has no cycle; numbers are compared as their
  literals.
\<close>

subsection \<open>ArrayAligner\<close>

text \<open>
  Modelled from the spec: the options of TreeDiffer, "detectCircular: bool; maxDepth:
  integer or unbounded; showModifications: bool; arrayDiffMethod: positional or
  alignment". \<open>None\<close> is the unbounded depth.
\<close>

datatype array_method = Positional | Alignment

record options =
  detectCircular :: bool
  maxDepth :: "nat option"
  showModifications :: bool
  arrayDiffMethod :: array_method

text \<open>
  Modelled from the spec: the positional strategy of ArrayAligner, which "pairs index i
  of left with index i of right for i up to min(len); remaining indices on the longer
  side are unmatched". An alignment is a sequence of pairs of optional indices.
\<close>

definition align_positional :: "nat \<Rightarrow> nat \<Rightarrow> (nat option \<times> nat option) list" where
  "align_positional n m =
     map (\<lambda>i. (Some i, Some i)) [0..<min n m] @
     map (\<lambda>i. (Some i, None)) [min n m..<n] @
     map (\<lambda>i. (None, Some i)) [min n m..<m]"

text \<open>
  Modelled from the spec: the alignment strategy of ArrayAligner, which "computes a
  longest-common-subsequence alignment between left and right (equality determined by
  deep structural equality of elements)". \<open>lcs_length\<close> is the length of a longest common
  subsequence; \<open>align_lcs i j\<close> aligns two sequences whose first elements have the
  indices \<open>i\<close> and \<open>j\<close>, matching equal heads and otherwise dropping the head whose
  removal keeps a longest common subsequence (the left one when both do).
\<close>

fun lcs_length :: "'a list \<Rightarrow> 'a list \<Rightarrow> nat" where
  "lcs_length [] ys = 0"
| "lcs_length (x # xs) [] = 0"
| "lcs_length (x # xs) (y # ys) =
     (if x = y then Suc (lcs_length xs ys)
      else max (lcs_length xs (y # ys)) (lcs_length (x # xs) ys))"

fun align_lcs :: "nat \<Rightarrow> nat \<Rightarrow> 'a list \<Rightarrow> 'a list \<Rightarrow> (nat option \<times> nat option) list" where
  "align_lcs i j [] ys = map (\<lambda>k. (None, Some k)) [j..<j + length ys]"
| "align_lcs i j (x # xs) [] = map (\<lambda>k. (Some k, None)) [i..<i + Suc (length xs)]"
| "align_lcs i j (x # xs) (y # ys) =
     (if x = y then (Some i, Some j) # align_lcs (Suc i) (Suc j) xs ys
      else if lcs_length (x # xs) ys \<le> lcs_length xs (y # ys)
        then (Some i, None) # align_lcs (Suc i) j xs (y # ys)
      else (None, Some j) # align_lcs i (Suc j) (x # xs) ys)"

text \<open>Modelled from the spec: \<open>align(left, right)\<close> of ArrayAligner, by strategy.\<close>

definition align :: "array_method \<Rightarrow> 'a list \<Rightarrow> 'a list \<Rightarrow> (nat option \<times> nat option) list" where
  "align m ls rs =
     (case m of
        Positional \<Rightarrow> align_positional (length ls) (length rs)
      | Alignment \<Rightarrow> align_lcs 0 0 ls rs)"

text \<open>The three kinds of pair in an alignment.\<close>

definition matched :: "nat option \<times> nat option \<Rightarrow> bool" where
  "matched p \<longleftrightarrow> fst p \<noteq> None \<and> snd p \<noteq> None"

definition left_only :: "nat option \<times> nat option \<Rightarrow> bool" where
  "left_only p \<longleftrightarrow> fst p \<noteq> None \<and> snd p = None"

definition right_only :: "nat option \<times> nat option \<Rightarrow> bool" where
  "right_only p \<longleftrightarrow> fst p = None \<and> snd p \<noteq> None"

lemma align_positional_bounds:
  "(a, b) \<in> set (align_positional n m) \<Longrightarrow>
     (\<forall>i. a = Some i \<longrightarrow> i < n) \<and> (\<forall>j. b = Some j \<longrightarrow> j < m)"
  by (auto simp: align_positional_def)

lemma align_lcs_bounds:
  "(a, b) \<in> set (align_lcs i j xs ys) \<Longrightarrow>
     (\<forall>k. a = Some k \<longrightarrow> i \<le> k \<and> k < i + length xs) \<and>
     (\<forall>k. b = Some k \<longrightarrow> j \<le> k \<and> k < j + length ys)"
proof (induction i j xs ys rule: align_lcs.induct)
  case (1 i j ys)
  then show ?case by auto
next
  case (2 i j x xs)
  then show ?case by auto
next
  case (3 i j x xs y ys)
  show ?case
  proof (cases "x = y")
    case True
    with 3 show ?thesis by (auto split: if_splits)
  next
    case False
    with 3 show ?thesis by (auto split: if_splits)
  qed
qed

lemma align_bounds:
  "(a, b) \<in> set (align m ls rs) \<Longrightarrow>
     (\<forall>i. a = Some i \<longrightarrow> i < length ls) \<and> (\<forall>j. b = Some j \<longrightarrow> j < length rs)"
proof (cases m)
  case Positional
  assume "(a, b) \<in> set (align m ls rs)"
  with Positional show ?thesis
    using align_positional_bounds [of a b "length ls" "length rs"] by (simp add: align_def)
next
  case Alignment
  assume "(a, b) \<in> set (align m ls rs)"
  with Alignment show ?thesis
    using align_lcs_bounds [of a b 0 0 ls rs] by (simp add: align_def)
qed

subsection \<open>TreeDiffer\<close>

text \<open>
  Modelled from the spec: what a DiffRecord reports, before it is numbered: its type
  and the subtree it stands for on each side (none on the left of an \<open>add\<close>, none on the
  right of a \<open>remove\<close>).
\<close>

type_synonym change = "dtype \<times> json option \<times> json option"

definition is_object :: "json \<Rightarrow> bool" where
  "is_object v = (case v of JObj ms \<Rightarrow> True | _ \<Rightarrow> False)"

definition is_array :: "json \<Rightarrow> bool" where
  "is_array v = (case v of JArr xs \<Rightarrow> True | _ \<Rightarrow> False)"

definition is_scalar :: "json \<Rightarrow> bool" where
  "is_scalar v \<longleftrightarrow> \<not> is_object v \<and> \<not> is_array v"

definition members :: "json \<Rightarrow> (jstring \<times> json) list" where
  "members v = (case v of JObj ms \<Rightarrow> ms | _ \<Rightarrow> [])"

definition elements :: "json \<Rightarrow> json list" where
  "elements v = (case v of JArr xs \<Rightarrow> xs | _ \<Rightarrow> [])"

text \<open>
  Modelled from the spec: the keys of two objects, as the "union of keys in a stable
  order (left's key order first, then right-only keys)".
\<close>

definition key_union :: "(jstring \<times> json) list \<Rightarrow> (jstring \<times> json) list \<Rightarrow> jstring list" where
  "key_union lm rm =
     remdups (map fst lm) @ filter (\<lambda>k. k \<notin> set (map fst lm)) (remdups (map fst rm))"

text \<open>
  Modelled from the spec: "depth exceeding \<open>maxDepth\<close>", and the "single
  \<open>modify\<close>/\<open>equal\<close> record summarizing the subtree without descending further".
\<close>

definition too_deep :: "nat option \<Rightarrow> nat \<Rightarrow> bool" where
  "too_deep limit d = (case limit of None \<Rightarrow> False | Some n \<Rightarrow> n < d)"

definition summary :: "json \<Rightarrow> json \<Rightarrow> change list" where
  "summary l r = [(if l = r then Equal else Modify, Some l, Some r)]"

text \<open>
  Modelled from the spec: the comparison of two values that are not both objects and
  not both sequences. "Both null/equal scalars: one \<open>equal\<close> record. Differing scalars:
  \<open>modify\<close> (if \<open>showModifications\<close>) else a \<open>remove\<close> + \<open>add\<close> pair. Mismatched kinds:
  whole-subtree \<open>remove\<close> + \<open>add\<close>."
\<close>

definition diff_leaf :: "options \<Rightarrow> json \<Rightarrow> json \<Rightarrow> change list" where
  "diff_leaf opts l r =
     (if is_scalar l \<and> is_scalar r then
        (if l = r then [(Equal, Some l, Some r)]
         else if showModifications opts then [(Modify, Some l, Some r)]
         else [(Remove, Some l, None), (Add, None, Some r)])
      else [(Remove, Some l, None), (Add, None, Some r)])"

lemma size_member: "map_of ms k = Some v \<Longrightarrow> size v < size (JObj ms)"
proof -
  assume "map_of ms k = Some v"
  then have "(k, v) \<in> set ms" by (rule map_of_SomeD)
  then show ?thesis
    by (induction ms) auto
qed

lemma size_element: "i < length xs \<Longrightarrow> size (xs ! i) < size (JArr xs)"
proof -
  have "x \<in> set xs \<Longrightarrow> size x < size (JArr xs)" for x
    by (induction xs) auto
  moreover assume "i < length xs"
  ultimately show ?thesis by simp
qed

text \<open>
  Modelled from the spec: the recursive comparison of TreeDiffer. "Both objects: for
  each key of the union, missing-on-left: \<open>add\<close>; missing-on-right: \<open>remove\<close>; present
  on both: recurse. Both ordered sequences: delegate index alignment to ArrayAligner,
  then recurse pairwise on aligned elements; unmatched left elements: \<open>remove\<close>,
  unmatched right elements: \<open>add\<close>." \<open>d\<close> is the depth of the two values.
\<close>

function diff_tree :: "options \<Rightarrow> nat \<Rightarrow> json \<Rightarrow> json \<Rightarrow> change list" where
  "diff_tree opts d l r =
     (if too_deep (maxDepth opts) d then summary l r
      else if is_object l \<and> is_object r then
        concat (map (\<lambda>k.
          case (map_of (members l) k, map_of (members r) k) of
            (Some a, Some b) \<Rightarrow> diff_tree opts (Suc d) a b
          | (Some a, None) \<Rightarrow> [(Remove, Some a, None)]
          | (None, Some b) \<Rightarrow> [(Add, None, Some b)]
          | (None, None) \<Rightarrow> []) (key_union (members l) (members r)))
      else if is_array l \<and> is_array r then
        concat (map (\<lambda>p.
          case p of
            (Some i, Some j) \<Rightarrow> diff_tree opts (Suc d) (elements l ! i) (elements r ! j)
          | (Some i, None) \<Rightarrow> [(Remove, Some (elements l ! i), None)]
          | (None, Some j) \<Rightarrow> [(Add, None, Some (elements r ! j))]
          | (None, None) \<Rightarrow> []) (align (arrayDiffMethod opts) (elements l) (elements r)))
      else diff_leaf opts l r)"
  by pat_completeness auto
termination
proof (relation "measure (\<lambda>(opts, d, l, r). size l)")
  show "wf (measure (\<lambda>(opts, d, l, r). size l))" by simp
next
  fix opts :: options and d :: nat and l r :: json and k x y a b
  assume "is_object l \<and> is_object r"
    and "(x, y) = (map_of (members l) k, map_of (members r) k)"
    and "x = Some a"
  then have "map_of (members l) k = Some a" and "l = JObj (members l)"
    by (auto simp: is_object_def members_def split: json.splits)
  then have "size a < size l" using size_member [of "members l" k a] by simp
  then show "((opts, Suc d, a, b), (opts, d, l, r)) \<in> measure (\<lambda>(opts, d, l, r). size l)"
    by simp
next
  fix opts :: options and d :: nat and l r :: json and p x y i j
  assume "is_array l \<and> is_array r"
    and "p \<in> set (align (arrayDiffMethod opts) (elements l) (elements r))"
    and "(x, y) = p" and "x = Some i"
  then have "i < length (elements l)" and "l = JArr (elements l)"
    using align_bounds [of x y "arrayDiffMethod opts" "elements l" "elements r"]
    by (auto simp: is_array_def elements_def split: json.splits)
  then have "size (elements l ! i) < size l" using size_element [of i "elements l"] by simp
  then show "((opts, Suc d, elements l ! i, elements r ! j), (opts, d, l, r))
      \<in> measure (\<lambda>(opts, d, l, r). size l)"
    by simp
qed

declare diff_tree.simps [simp del]

text \<open>
  Modelled from the spec: \<open>diff(left, right, options)\<close>. Each record carries "a running
  line counter incremented once per emitted record"; its text is a "human-readable
  description", which the specification leaves open: \<open>describe\<close> is a parameter. The
  comparison of the two roots is the one comparison unit of the result.
\<close>

definition number_records :: "(change \<Rightarrow> jstring) \<Rightarrow> change list \<Rightarrow> DiffRecord list" where
  "number_records describe cs =
     map (\<lambda>(n, c). \<lparr>rtype = fst c, lineNumber = Suc n, rtext = describe c\<rparr>) (enumerate 0 cs)"

text \<open>Modelled from the spec: the result of \<open>diff\<close>, a sequence of sequences of records.\<close>

definition diff :: "(change \<Rightarrow> jstring) \<Rightarrow> options \<Rightarrow> json \<Rightarrow> json \<Rightarrow> DiffRecord list list" where
  "diff describe opts l r = [number_records describe (diff_tree opts 0 l r)]"

text \<open>The options the script passes; \<open>'normal'\<close> is the positional strategy.\<close>

definition script_options :: options where
  "script_options =
     \<lparr>detectCircular = True, maxDepth = None, showModifications = True,
      arrayDiffMethod = Positional\<rparr>"



text \<open>
  Modelled from the spec: structural equality of two trees, which section 4.4 names and
  section 4.3 uses in "equal scalars". Two objects are equal when they have the same
  keys and equal values at every key, in whatever order the keys stand; two sequences
  when they have the same length and equal elements at every index; any other two
  values when they are the same value. Two trees that are the same value are
  structurally equal.
\<close>

function deep_equal :: "json \<Rightarrow> json \<Rightarrow> bool" where
  "deep_equal l r =
     (if is_object l \<and> is_object r then
        set (map fst (members l)) = set (map fst (members r)) \<and>
        list_all (\<lambda>k.
          case (map_of (members l) k, map_of (members r) k) of
            (Some a, Some b) \<Rightarrow> deep_equal a b
          | _ \<Rightarrow> False) (map fst (members l))
      else if is_array l \<and> is_array r then
        length (elements l) = length (elements r) \<and>
        list_all (\<lambda>i. deep_equal (elements l ! i) (elements r ! i)) [0..<length (elements l)]
      else l = r)"
  by pat_completeness auto
termination
proof (relation "measure (\<lambda>(l, r). size l)")
  show "wf (measure (\<lambda>(l, r). size l))" by simp
next
  fix l r :: json and k x y a b
  assume "is_object l \<and> is_object r"
    and "(x, y) = (map_of (members l) k, map_of (members r) k)"
    and "x = Some a"
  then have "map_of (members l) k = Some a" and "l = JObj (members l)"
    by (auto simp: is_object_def members_def split: json.splits)
  then have "size a < size l" using size_member [of "members l" k a] by simp
  then show "((a, b), (l, r)) \<in> measure (\<lambda>(l, r). size l)" by simp
next
  fix l r :: json and i
  assume "is_array l \<and> is_array r" and "i \<in> set [0..<length (elements l)]"
  then have "i < length (elements l)" and "l = JArr (elements l)"
    by (auto simp: is_array_def elements_def split: json.splits)
  then have "size (elements l ! i) < size l" using size_element [of i "elements l"] by simp
  then show "((elements l ! i, elements r ! i), (l, r)) \<in> measure (\<lambda>(l, r). size l)"
    by simp
qed

declare deep_equal.simps [simp del]

subsection \<open>A tree against itself\<close>

lemma diff_types: "map rtype (concat (diff describe opts l r)) = map fst (diff_tree opts 0 l r)"
proof -
  have "map rtype (number_records describe cs) = map fst cs" for cs
  proof -
    have "map rtype (map (\<lambda>(n, c). \<lparr>rtype = fst c, lineNumber = Suc n, rtext = describe c\<rparr>) ps) =
        map fst (map snd ps)" for ps :: "(nat \<times> change) list"
      by (induction ps) auto
    from this [of "enumerate 0 cs"] show ?thesis
      by (simp add: number_records_def)
  qed
  then show ?thesis by (simp add: diff_def)
qed

lemma align_positional_same:
  "align_positional n n = map (\<lambda>i. (Some i, Some i)) [0..<n]"
  by (simp add: align_positional_def)

lemma align_lcs_same:
  "align_lcs i j xs xs = map (\<lambda>k. (Some (i + k), Some (j + k))) [0..<length xs]"
proof (induction xs arbitrary: i j)
  case Nil
  then show ?case by simp
next
  case (Cons x xs)
  have "map (\<lambda>k. (Some (i + k), Some (j + k))) [0..<length (x # xs)] =
      (Some i, Some j) # map (\<lambda>k. (Some (Suc i + k), Some (Suc j + k))) [0..<length xs]"
    by (simp add: upt_conv_Cons map_Suc_upt [symmetric] del: upt_Suc)
  with Cons.IH [of "Suc i" "Suc j"] show ?case by simp
qed

lemma align_same: "align m xs xs = map (\<lambda>i. (Some i, Some i)) [0..<length xs]"
  by (cases m) (simp_all add: align_def align_positional_same align_lcs_same)

lemma diff_tree_same:
  "l = r \<Longrightarrow> list_all (\<lambda>c. fst c = Equal) (diff_tree opts d l r)"
proof (induction opts d l r rule: diff_tree.induct)
  case (1 opts d l r)
  note same = \<open>l = r\<close>
  show ?case
  proof (cases "too_deep (maxDepth opts) d")
    case True
    with same show ?thesis by (subst diff_tree.simps) (simp add: summary_def)
  next
    case deep: False
    show ?thesis
    proof (cases "is_object l")
      case obj: True
      have "list_all (\<lambda>c. fst c = Equal)
          (case (map_of (members l) k, map_of (members r) k) of
             (Some a, Some b) \<Rightarrow> diff_tree opts (Suc d) a b
           | (Some a, None) \<Rightarrow> [(Remove, Some a, None)]
           | (None, Some b) \<Rightarrow> [(Add, None, Some b)]
           | (None, None) \<Rightarrow> [])"
        if k: "k \<in> set (key_union (members l) (members r))" for k
      proof (cases "map_of (members l) k")
        case None
        with same show ?thesis by simp
      next
        case (Some a)
        with same have r: "map_of (members r) k = Some a" by simp
        from "1.IH"(1) [OF deep _ k refl Some r] obj same
        have "list_all (\<lambda>c. fst c = Equal) (diff_tree opts (Suc d) a a)" by simp
        with Some r show ?thesis by simp
      qed
      with deep obj same show ?thesis
        by (subst diff_tree.simps) (simp add: list_all_iff)
    next
      case nobj: False
      show ?thesis
      proof (cases "is_array l")
        case arr: True
        have "list_all (\<lambda>c. fst c = Equal)
            (diff_tree opts (Suc d) (elements l ! i) (elements r ! i))"
          if i: "i < length (elements l)" for i
        proof -
          from i same have "(Some i, Some i) \<in>
              set (align (arrayDiffMethod opts) (elements l) (elements r))"
            by (simp add: align_same)
          from "1.IH"(2) [OF deep _ _ this refl refl refl] nobj arr same
          show ?thesis by simp
        qed
        with deep nobj arr same show ?thesis
          by (subst diff_tree.simps) (simp add: list_all_iff align_same)
      next
        case narr: False
        with deep nobj same show ?thesis
          by (subst diff_tree.simps) (simp add: diff_leaf_def is_scalar_def)
      qed
    qed
  qed
qed


subsection \<open>Exchanging left and right\<close>


lemma key_union_set: "set (key_union lm rm) = fst ` set lm \<union> fst ` set rm"
  by (auto simp: key_union_def)














subsection \<open>One inserted element\<close>

lemma lcs_length_le: "lcs_length xs ys \<le> length xs"
  by (induction xs ys rule: lcs_length.induct) auto

lemma lcs_length_same: "lcs_length xs xs = length xs"
  by (induction xs) auto

lemma lcs_length_insert_head: "lcs_length xs (e # xs) = length xs"
proof (induction xs arbitrary: e)
  case Nil
  then show ?case by simp
next
  case (Cons x xs)
  show ?case
  proof (cases "x = e")
    case True
    with Cons.IH [of x] show ?thesis by simp
  next
    case False
    have "lcs_length xs (e # x # xs) \<le> length xs" by (rule lcs_length_le)
    with False show ?thesis by (simp add: lcs_length_same)
  qed
qed

lemma lcs_length_insert: "lcs_length (pre @ post) (pre @ e # post) = length (pre @ post)"
  by (induction pre) (simp_all add: lcs_length_insert_head)

lemma align_lcs_counts:
  "length (filter matched (align_lcs i j xs ys)) = lcs_length xs ys \<and>
   length (filter matched (align_lcs i j xs ys)) +
     length (filter left_only (align_lcs i j xs ys)) = length xs \<and>
   length (filter matched (align_lcs i j xs ys)) +
     length (filter right_only (align_lcs i j xs ys)) = length ys"
proof (induction i j xs ys rule: align_lcs.induct)
  case (1 i j ys)
  then show ?case by (simp add: matched_def left_only_def right_only_def)
next
  case (2 i j x xs)
  then show ?case by (simp add: matched_def left_only_def right_only_def)
next
  case (3 i j x xs y ys)
  show ?case
  proof (cases "x = y")
    case True
    with "3.IH"(1) show ?thesis by (simp add: matched_def left_only_def right_only_def)
  next
    case ne: False
    show ?thesis
    proof (cases "lcs_length (x # xs) ys \<le> lcs_length xs (y # ys)")
      case True
      with ne "3.IH"(2) show ?thesis
        by (simp add: matched_def left_only_def right_only_def max_def)
    next
      case False
      with ne "3.IH"(3) show ?thesis
        by (simp add: matched_def left_only_def right_only_def max_def)
    qed
  qed
qed

lemma align_lcs_matched_equal:
  "(Some a, Some b) \<in> set (align_lcs i j xs ys) \<Longrightarrow> xs ! (a - i) = ys ! (b - j)"
proof (induction i j xs ys arbitrary: a b rule: align_lcs.induct)
  case (1 i j ys)
  then show ?case by auto
next
  case (2 i j x xs)
  then show ?case by auto
next
  case (3 i j x xs y ys)
  show ?case
  proof (cases "x = y")
    case True
    show ?thesis
    proof (cases "(Some a, Some b) = (Some i, Some j)")
      case here: True
      with \<open>x = y\<close> show ?thesis by simp
    next
      case False
      with "3.prems" \<open>x = y\<close>
      have m: "(Some a, Some b) \<in> set (align_lcs (Suc i) (Suc j) xs ys)" by auto
      from align_lcs_bounds [OF m] have "Suc i \<le> a" and "Suc j \<le> b" by auto
      then have "a - i = Suc (a - Suc i)" and "b - j = Suc (b - Suc j)" by auto
      with "3.IH"(1) [OF \<open>x = y\<close> m] show ?thesis by simp
    qed
  next
    case ne: False
    show ?thesis
    proof (cases "lcs_length (x # xs) ys \<le> lcs_length xs (y # ys)")
      case True
      with "3.prems" ne
      have m: "(Some a, Some b) \<in> set (align_lcs (Suc i) j xs (y # ys))" by auto
      from align_lcs_bounds [OF m] have "Suc i \<le> a" by auto
      then have "a - i = Suc (a - Suc i)" by auto
      with "3.IH"(2) [OF ne True m] show ?thesis by simp
    next
      case False
      with "3.prems" ne
      have m: "(Some a, Some b) \<in> set (align_lcs i (Suc j) (x # xs) ys)" by auto
      from align_lcs_bounds [OF m] have "Suc j \<le> b" by auto
      then have "b - j = Suc (b - Suc j)" by auto
      with "3.IH"(3) [OF ne False m] show ?thesis by simp
    qed
  qed
qed

lemma count_types:
  assumes "\<And>p. p \<in> set ps \<Longrightarrow> matched p \<Longrightarrow> list_all (\<lambda>c. fst c = Equal) (F p)"
    and "\<And>p. p \<in> set ps \<Longrightarrow> left_only p \<Longrightarrow> map fst (F p) = [Remove]"
    and "\<And>p. p \<in> set ps \<Longrightarrow> right_only p \<Longrightarrow> map fst (F p) = [Add]"
    and "\<And>p. p \<in> set ps \<Longrightarrow> p = (None, None) \<Longrightarrow> F p = []"
  shows "count_list (map fst (concat (map F ps))) Add = length (filter right_only ps) \<and>
         count_list (map fst (concat (map F ps))) Remove = length (filter left_only ps) \<and>
         count_list (map fst (concat (map F ps))) Modify = 0"
  using assms
proof (induction ps)
  case Nil
  then show ?case by simp
next
  case (Cons p ps)
  have rest: "count_list (map fst (concat (map F ps))) Add = length (filter right_only ps) \<and>
         count_list (map fst (concat (map F ps))) Remove = length (filter left_only ps) \<and>
         count_list (map fst (concat (map F ps))) Modify = 0"
    by (rule Cons.IH) (auto intro: Cons.prems)
  have eq0: "list_all (\<lambda>c. fst c = Equal) cs \<Longrightarrow> t \<noteq> Equal \<Longrightarrow> count_list (map fst cs) t = 0"
    for cs :: "(dtype \<times> 'c) list" and t
    by (auto simp: count_list_0_iff list_all_iff)
  obtain x y where p: "p = (x, y)" by (cases p)
  consider "matched p" | "left_only p" | "right_only p" | "p = (None, None)"
    by (cases x; cases y) (auto simp: p matched_def left_only_def right_only_def)
  then show ?case
  proof cases
    case 1
    then have n: "\<not> left_only p" "\<not> right_only p"
      by (auto simp: matched_def left_only_def right_only_def)
    from Cons.prems(1) [OF _ 1] have "list_all (\<lambda>c. fst c = Equal) (F p)" by simp
    from eq0 [OF this] n rest show ?thesis by simp
  next
    case 2
    then have n: "\<not> right_only p"
      by (auto simp: left_only_def right_only_def)
    from Cons.prems(2) [OF _ 2] have "map fst (F p) = [Remove]" by simp
    with 2 n rest show ?thesis by simp
  next
    case 3
    then have n: "\<not> left_only p"
      by (auto simp: left_only_def right_only_def)
    from Cons.prems(3) [OF _ 3] have "map fst (F p) = [Add]" by simp
    with 3 n rest show ?thesis by simp
  next
    case 4
    then have n: "\<not> left_only p" "\<not> right_only p"
      by (auto simp: left_only_def right_only_def)
    from Cons.prems(4) [OF _ 4] have "F p = []" by simp
    with n rest show ?thesis by simp
  qed
qed

lemma diff_tree_arrays:
  "diff_tree opts 0 (JArr ls) (JArr rs) =
     concat (map (\<lambda>p.
       case p of
         (Some i, Some j) \<Rightarrow> diff_tree opts (Suc 0) (ls ! i) (rs ! j)
       | (Some i, None) \<Rightarrow> [(Remove, Some (ls ! i), None)]
       | (None, Some j) \<Rightarrow> [(Add, None, Some (rs ! j))]
       | (None, None) \<Rightarrow> []) (align (arrayDiffMethod opts) ls rs))"
proof -
  have e: "elements (JArr ls) = ls" "elements (JArr rs) = rs"
    by (simp_all add: elements_def)
  have c: "too_deep (maxDepth opts) 0 = False"
    "(is_object (JArr ls) \<and> is_object (JArr rs)) = False"
    "(is_array (JArr ls) \<and> is_array (JArr rs)) = True"
    by (simp_all add: too_deep_def is_object_def is_array_def split: option.splits)
  show ?thesis
    by (subst diff_tree.simps) (simp only: c e if_False if_True)
qed

lemma alignment_insertion_counts:
  assumes "arrayDiffMethod opts = Alignment"
  shows "count_list (map fst (diff_tree opts 0 (JArr (pre @ post)) (JArr (pre @ e # post)))) Add = 1 \<and>
         count_list (map fst (diff_tree opts 0 (JArr (pre @ post)) (JArr (pre @ e # post)))) Remove = 0 \<and>
         count_list (map fst (diff_tree opts 0 (JArr (pre @ post)) (JArr (pre @ e # post)))) Modify = 0"
proof -
  let ?ls = "pre @ post" and ?rs = "pre @ e # post"
  let ?ps = "align_lcs 0 0 ?ls ?rs"
  let ?F = "\<lambda>p. case p of
         (Some i, Some j) \<Rightarrow> diff_tree opts (Suc 0) (?ls ! i) (?rs ! j)
       | (Some i, None) \<Rightarrow> [(Remove, Some (?ls ! i), None)]
       | (None, Some j) \<Rightarrow> [(Add, None, Some (?rs ! j))]
       | (None, None) \<Rightarrow> []"
  from align_lcs_counts [of 0 0 ?ls ?rs] lcs_length_insert [of pre post e]
  have l: "length (filter left_only ?ps) = 0" and r: "length (filter right_only ?ps) = 1"
    by auto
  have "count_list (map fst (concat (map ?F ?ps))) Add = length (filter right_only ?ps) \<and>
        count_list (map fst (concat (map ?F ?ps))) Remove = length (filter left_only ?ps) \<and>
        count_list (map fst (concat (map ?F ?ps))) Modify = 0"
  proof (rule count_types)
    fix p assume p: "p \<in> set ?ps" and m: "matched p"
    from m obtain i j where ij: "p = (Some i, Some j)"
      by (cases p) (auto simp: matched_def)
    from align_lcs_matched_equal [of i j 0 0 ?ls ?rs] p ij have "?ls ! i = ?rs ! j" by simp
    from diff_tree_same [OF this] ij show "list_all (\<lambda>c. fst c = Equal) (?F p)" by simp
  next
    fix p :: "nat option \<times> nat option" assume "left_only p"
    then show "map fst (?F p) = [Remove]"
      by (cases p) (auto simp: left_only_def)
  next
    fix p :: "nat option \<times> nat option" assume "right_only p"
    then show "map fst (?F p) = [Add]"
      by (cases p) (auto simp: right_only_def)
  next
    fix p :: "nat option \<times> nat option" assume "p = (None, None)"
    then show "?F p = []" by simp
  qed
  with l r assms show ?thesis
    by (simp add: diff_tree_arrays align_def)
qed

lemma map_nth_zip:
  "length xs \<le> length ys \<Longrightarrow>
     map (\<lambda>i. f (xs ! i) (ys ! i)) [0..<length xs] = map (\<lambda>(x, y). f x y) (zip xs ys)"
  by (rule nth_equalityI) simp_all

lemma positional_insertion_shape:
  assumes "arrayDiffMethod opts = Positional"
  shows "diff_tree opts 0 (JArr (pre @ post)) (JArr (pre @ e # post)) =
           concat (map (\<lambda>x. diff_tree opts (Suc 0) x x) pre) @
           concat (map (\<lambda>(x, y). diff_tree opts (Suc 0) x y) (zip post (e # post))) @
           [(Add, None, Some (last (e # post)))]"
proof -
  let ?ls = "pre @ post" and ?rs = "pre @ e # post"
  let ?n = "length ?ls"
  have al: "align_positional ?n (Suc ?n) =
      map (\<lambda>i. (Some i, Some i)) [0..<?n] @ [(None, Some ?n)]"
    by (simp add: align_positional_def min_def)
  from assms al have "align (arrayDiffMethod opts) ?ls ?rs =
      map (\<lambda>i. (Some i, Some i)) [0..<?n] @ [(None, Some ?n)]"
    by (simp add: align_def)
  then have "diff_tree opts 0 (JArr ?ls) (JArr ?rs) =
      concat (map (\<lambda>p.
       case p of
         (Some i, Some j) \<Rightarrow> diff_tree opts (Suc 0) (?ls ! i) (?rs ! j)
       | (Some i, None) \<Rightarrow> [(Remove, Some (?ls ! i), None)]
       | (None, Some j) \<Rightarrow> [(Add, None, Some (?rs ! j))]
       | (None, None) \<Rightarrow> []) (map (\<lambda>i. (Some i, Some i)) [0..<?n] @ [(None, Some ?n)]))"
    by (simp only: diff_tree_arrays)
  also have "\<dots> =
      concat (map (\<lambda>i. diff_tree opts (Suc 0) (?ls ! i) (?rs ! i)) [0..<?n]) @
      [(Add, None, Some (?rs ! ?n))]"
    by (simp only: map_append map_map comp_def concat_append list.map concat.simps
        prod.case option.case append_Nil2)
  finally have "diff_tree opts 0 (JArr ?ls) (JArr ?rs) =
      concat (map (\<lambda>i. diff_tree opts (Suc 0) (?ls ! i) (?rs ! i)) [0..<?n]) @
      [(Add, None, Some (?rs ! ?n))]" .
  also have "map (\<lambda>i. diff_tree opts (Suc 0) (?ls ! i) (?rs ! i)) [0..<?n] =
      map (\<lambda>(x, y). diff_tree opts (Suc 0) x y) (zip ?ls ?rs)"
    by (rule map_nth_zip) simp
  also have "zip ?ls ?rs = zip pre pre @ zip post (e # post)"
    by simp
  also have "map (\<lambda>(x, y). diff_tree opts (Suc 0) x y) (zip pre pre @ zip post (e # post)) =
      map (\<lambda>x. diff_tree opts (Suc 0) x x) pre @
      map (\<lambda>(x, y). diff_tree opts (Suc 0) x y) (zip post (e # post))"
    by (simp add: zip_same_conv_map comp_def)
  also have "?rs ! ?n = last (e # post)"
    by (simp add: nth_append last_conv_nth del: last.simps)
  finally show ?thesis by simp
qed

lemma deep_equal_same: "l = r \<Longrightarrow> deep_equal l r"
proof (induction l r rule: deep_equal.induct)
  case (1 l r)
  note same = \<open>l = r\<close>
  show ?case
  proof (cases "is_object l")
    case True
    have "case (map_of (members l) k, map_of (members r) k) of
            (Some a, Some b) \<Rightarrow> deep_equal a b | _ \<Rightarrow> False"
      if k: "k \<in> set (map fst (members l))" for k
    proof -
      from k obtain a where a: "map_of (members l) k = Some a"
        by (cases "map_of (members l) k") (auto simp: map_of_eq_None_iff)
      with same have b: "map_of (members r) k = Some a" by simp
      from "1.IH"(1) [OF _ k refl a b] True same a b show ?thesis by simp
    qed
    with True same show ?thesis
      by (subst deep_equal.simps) (simp add: list_all_iff)
  next
    case nobj: False
    show ?thesis
    proof (cases "is_array l")
      case True
      have "deep_equal (elements l ! i) (elements r ! i)"
        if "i \<in> set [0..<length (elements l)]" for i
        using "1.IH"(2) [OF _ _ that] nobj True same by simp
      with nobj True same show ?thesis
        by (subst deep_equal.simps) (simp add: list_all_iff)
    next
      case False
      with nobj same show ?thesis by (subst deep_equal.simps) simp
    qed
  qed
qed

lemma list_ex_concat:
  "k \<in> set ks \<Longrightarrow> list_ex P (G k) \<Longrightarrow> list_ex P (concat (map G ks))"
  by (auto simp: list_ex_iff)

lemma diff_tree_differ:
  "arrayDiffMethod opts = Positional \<Longrightarrow> \<not> deep_equal l r \<Longrightarrow>
     list_ex (\<lambda>c. fst c \<noteq> Equal) (diff_tree opts d l r)"
proof (induction opts d l r rule: diff_tree.induct)
  case (1 opts d l r)
  note pos = \<open>arrayDiffMethod opts = Positional\<close> and ne = \<open>\<not> deep_equal l r\<close>
  from ne deep_equal_same have neq: "l \<noteq> r" by auto
  show ?case
  proof (cases "too_deep (maxDepth opts) d")
    case True
    with neq show ?thesis by (subst diff_tree.simps) (simp add: summary_def)
  next
    case deep: False
    show ?thesis
    proof (cases "is_object l \<and> is_object r")
      case obj: True
      let ?G = "\<lambda>k. case (map_of (members l) k, map_of (members r) k) of
             (Some a, Some b) \<Rightarrow> diff_tree opts (Suc d) a b
           | (Some a, None) \<Rightarrow> [(Remove, Some a, None)]
           | (None, Some b) \<Rightarrow> [(Add, None, Some b)]
           | (None, None) \<Rightarrow> []"
      have "\<exists>k \<in> set (key_union (members l) (members r)). list_ex (\<lambda>c. fst c \<noteq> Equal) (?G k)"
      proof (cases "set (map fst (members l)) = set (map fst (members r))")
        case keys: True
        with ne obj deep_equal.simps [of l r]
        have "\<not> list_all (\<lambda>k. case (map_of (members l) k, map_of (members r) k) of
            (Some a, Some b) \<Rightarrow> deep_equal a b | _ \<Rightarrow> False) (map fst (members l))"
          by (simp only: if_True simp_thms)
        then obtain k where k: "k \<in> set (map fst (members l))"
          and bad: "\<not> (case (map_of (members l) k, map_of (members r) k) of
            (Some a, Some b) \<Rightarrow> deep_equal a b | _ \<Rightarrow> False)"
          unfolding list_all_iff by blast
        from k obtain a where a: "map_of (members l) k = Some a"
          by (cases "map_of (members l) k") (auto simp: map_of_eq_None_iff)
        from k keys have "k \<in> set (map fst (members r))" by simp
        then obtain b where b: "map_of (members r) k = Some b"
          by (cases "map_of (members r) k") (auto simp: map_of_eq_None_iff)
        from bad a b have nab: "\<not> deep_equal a b" by simp
        from k have ku: "k \<in> set (key_union (members l) (members r))"
          by (simp add: key_union_set)
        from "1.IH"(1) [OF deep obj ku refl a b pos nab] a b
        have "list_ex (\<lambda>c. fst c \<noteq> Equal) (?G k)" by simp
        with ku show ?thesis by blast
      next
        case False
        then obtain k where "(k \<in> fst ` set (members l) \<and> k \<notin> fst ` set (members r)) \<or>
            (k \<in> fst ` set (members r) \<and> k \<notin> fst ` set (members l))"
          by auto
        then show ?thesis
        proof
          assume k: "k \<in> fst ` set (members l) \<and> k \<notin> fst ` set (members r)"
          then obtain a where "map_of (members l) k = Some a" and "map_of (members r) k = None"
            by (cases "map_of (members l) k") (auto simp: map_of_eq_None_iff)
          then have "list_ex (\<lambda>c. fst c \<noteq> Equal) (?G k)" by simp
          moreover from k have "k \<in> set (key_union (members l) (members r))"
            by (simp add: key_union_set)
          ultimately show ?thesis by blast
        next
          assume k: "k \<in> fst ` set (members r) \<and> k \<notin> fst ` set (members l)"
          then obtain b where "map_of (members r) k = Some b" and "map_of (members l) k = None"
            by (cases "map_of (members r) k") (auto simp: map_of_eq_None_iff)
          then have "list_ex (\<lambda>c. fst c \<noteq> Equal) (?G k)" by simp
          moreover from k have "k \<in> set (key_union (members l) (members r))"
            by (simp add: key_union_set)
          ultimately show ?thesis by blast
        qed
      qed
      then have "list_ex (\<lambda>c. fst c \<noteq> Equal)
          (concat (map ?G (key_union (members l) (members r))))"
        by (auto intro: list_ex_concat)
      with deep obj show ?thesis
        by (simp only: diff_tree.simps [of opts d l r] if_False if_True simp_thms)
    next
      case nobj: False
      show ?thesis
      proof (cases "is_array l \<and> is_array r")
        case arr: True
        let ?n = "length (elements l)" and ?m = "length (elements r)"
        let ?F = "\<lambda>p. case p of
              (Some i, Some j) \<Rightarrow> diff_tree opts (Suc d) (elements l ! i) (elements r ! j)
            | (Some i, None) \<Rightarrow> [(Remove, Some (elements l ! i), None)]
            | (None, Some j) \<Rightarrow> [(Add, None, Some (elements r ! j))]
            | (None, None) \<Rightarrow> []"
        let ?ps = "align (arrayDiffMethod opts) (elements l) (elements r)"
        from pos have ps: "?ps = align_positional ?n ?m" by (simp add: align_def)
        have "\<exists>p \<in> set ?ps. list_ex (\<lambda>c. fst c \<noteq> Equal) (?F p)"
        proof (cases "?n = ?m")
          case len: True
          with ne nobj arr deep_equal.simps [of l r]
          have "\<not> list_all (\<lambda>i. deep_equal (elements l ! i) (elements r ! i)) [0..<?n]"
            by (simp only: if_False if_True simp_thms)
          then obtain i where "i \<in> set [0..<?n]"
            and bad: "\<not> deep_equal (elements l ! i) (elements r ! i)"
            unfolding list_all_iff by blast
          then have i: "i < ?n" by simp
          from i len have mem: "(Some i, Some i) \<in> set ?ps"
            by (simp add: ps align_positional_def)
          from "1.IH"(2) [OF deep nobj arr mem refl refl refl pos bad]
          have "list_ex (\<lambda>c. fst c \<noteq> Equal) (?F (Some i, Some i))" by simp
          with mem show ?thesis by blast
        next
          case False
          then consider "?n < ?m" | "?m < ?n" by linarith
          then show ?thesis
          proof cases
            case 1
            then have "(None, Some ?n) \<in> set ?ps"
              by (simp add: ps align_positional_def min_def)
            moreover have "list_ex (\<lambda>c. fst c \<noteq> Equal) (?F (None, Some ?n))" by simp
            ultimately show ?thesis by blast
          next
            case 2
            then have "(Some ?m, None) \<in> set ?ps"
              by (simp add: ps align_positional_def min_def)
            moreover have "list_ex (\<lambda>c. fst c \<noteq> Equal) (?F (Some ?m, None))" by simp
            ultimately show ?thesis by blast
          qed
        qed
        then have "list_ex (\<lambda>c. fst c \<noteq> Equal) (concat (map ?F ?ps))"
          by (auto intro: list_ex_concat)
        with deep nobj arr show ?thesis
          by (simp only: diff_tree.simps [of opts d l r] if_False if_True simp_thms)
      next
        case narr: False
        from deep nobj narr have "diff_tree opts d l r = diff_leaf opts l r"
          by (simp only: diff_tree.simps [of opts d l r] if_False if_True simp_thms)
        with neq show ?thesis by (simp add: diff_leaf_def)
      qed
    qed
  qed
qed

lemma diff_tree_scalars:
  assumes "is_scalar l" and "is_scalar r" and "l \<noteq> r"
  shows "map fst (diff_tree opts d l r) =
           (if too_deep (maxDepth opts) d \<or> showModifications opts then [Modify]
            else [Remove, Add])"
  using assms
  by (subst diff_tree.simps) (simp add: summary_def diff_leaf_def is_scalar_def)

section \<open>The claims about the differ\<close>

text \<open>
  C6: for every tree \<open>x\<close>, and with any options, the diff of \<open>x\<close> against itself has
  only records of type \<open>equal\<close>: no \<open>add\<close>, \<open>remove\<close> or \<open>modify\<close> record is produced.
\<close>

theorem diff_same_only_equal:
  "list_all (\<lambda>r. rtype r = Equal) (concat (diff describe opts x x))"
proof -
  have "list_all (\<lambda>t. t = Equal) (map fst (diff_tree opts 0 x x))"
    using diff_tree_same [of x x opts 0] by (simp add: list_all_iff)
  then have "list_all (\<lambda>t. t = Equal) (map rtype (concat (diff describe opts x x)))"
    by (simp only: diff_types)
  then show ?thesis by (simp add: list_all_iff)
qed




text \<open>
  C9, amended: when one element \<open>e\<close> is inserted into a sequence \<open>pre @ post\<close> after
  \<open>pre\<close>, the diff of the sequence against the result has, under the alignment
  strategy, exactly one \<open>add\<close> record and no \<open>modify\<close> or \<open>remove\<close> record. Under the
  positional strategy the elements before the insertion point give only \<open>equal\<close>
  records, the last element of the result gives one \<open>add\<close> record, and every element
  from the insertion point onward is compared with the element that now has its index:
  it gives a \<open>modify\<close>, \<open>remove\<close> or \<open>add\<close> record whenever the two are not structurally
  equal (two different scalars give one \<open>modify\<close> record, or a \<open>remove\<close> and an \<open>add\<close>
  where modifications are not shown), and only \<open>equal\<close> records when the two are the
  same.
\<close>

theorem insertion_strategies:
  "(arrayDiffMethod opts = Alignment \<longrightarrow>
      count_list (map rtype (concat (diff describe opts (JArr (pre @ post)) (JArr (pre @ e # post))))) Add = 1 \<and>
      count_list (map rtype (concat (diff describe opts (JArr (pre @ post)) (JArr (pre @ e # post))))) Remove = 0 \<and>
      count_list (map rtype (concat (diff describe opts (JArr (pre @ post)) (JArr (pre @ e # post))))) Modify = 0) \<and>
   (arrayDiffMethod opts = Positional \<longrightarrow>
      map rtype (concat (diff describe opts (JArr (pre @ post)) (JArr (pre @ e # post)))) =
        concat (map (\<lambda>x. map fst (diff_tree opts (Suc 0) x x)) pre) @
        concat (map (\<lambda>(x, y). map fst (diff_tree opts (Suc 0) x y)) (zip post (e # post))) @
        [Add] \<and>
      list_all (\<lambda>t. t = Equal) (concat (map (\<lambda>x. map fst (diff_tree opts (Suc 0) x x)) pre)) \<and>
      list_all (\<lambda>(x, y).
          (\<not> deep_equal x y \<longrightarrow>
             list_ex (\<lambda>t. t \<noteq> Equal) (map fst (diff_tree opts (Suc 0) x y))) \<and>
          (is_scalar x \<and> is_scalar y \<and> x \<noteq> y \<longrightarrow>
             map fst (diff_tree opts (Suc 0) x y) =
               (if too_deep (maxDepth opts) (Suc 0) \<or> showModifications opts then [Modify]
                else [Remove, Add])) \<and>
          (x = y \<longrightarrow> list_all (\<lambda>t. t = Equal) (map fst (diff_tree opts (Suc 0) x y))))
        (zip post (e # post)))"
proof (intro conjI impI)
  assume a: "arrayDiffMethod opts = Alignment"
  from alignment_insertion_counts [OF a, of pre post e]
  show "count_list (map rtype (concat (diff describe opts (JArr (pre @ post)) (JArr (pre @ e # post))))) Add = 1"
    and "count_list (map rtype (concat (diff describe opts (JArr (pre @ post)) (JArr (pre @ e # post))))) Remove = 0"
    and "count_list (map rtype (concat (diff describe opts (JArr (pre @ post)) (JArr (pre @ e # post))))) Modify = 0"
    by (simp_all only: diff_types)
next
  assume p: "arrayDiffMethod opts = Positional"
  have "map fst (diff_tree opts 0 (JArr (pre @ post)) (JArr (pre @ e # post))) =
      concat (map (\<lambda>x. map fst (diff_tree opts (Suc 0) x x)) pre) @
      concat (map (\<lambda>(x, y). map fst (diff_tree opts (Suc 0) x y)) (zip post (e # post))) @
      [Add]"
    by (simp add: positional_insertion_shape [OF p] map_concat comp_def case_prod_unfold)
  then show "map rtype (concat (diff describe opts (JArr (pre @ post)) (JArr (pre @ e # post)))) =
      concat (map (\<lambda>x. map fst (diff_tree opts (Suc 0) x x)) pre) @
      concat (map (\<lambda>(x, y). map fst (diff_tree opts (Suc 0) x y)) (zip post (e # post))) @
      [Add]"
    by (simp only: diff_types)
next
  have "list_all (\<lambda>c. fst c = Equal) (diff_tree opts (Suc 0) x x)" for x
    by (rule diff_tree_same) simp
  then show "list_all (\<lambda>t. t = Equal) (concat (map (\<lambda>x. map fst (diff_tree opts (Suc 0) x x)) pre))"
    by (simp add: list_all_iff)
next
  assume p: "arrayDiffMethod opts = Positional"
  have "(\<not> deep_equal x y \<longrightarrow>
           list_ex (\<lambda>t. t \<noteq> Equal) (map fst (diff_tree opts (Suc 0) x y))) \<and>
        (is_scalar x \<and> is_scalar y \<and> x \<noteq> y \<longrightarrow>
           map fst (diff_tree opts (Suc 0) x y) =
             (if too_deep (maxDepth opts) (Suc 0) \<or> showModifications opts then [Modify]
              else [Remove, Add])) \<and>
        (x = y \<longrightarrow> list_all (\<lambda>t. t = Equal) (map fst (diff_tree opts (Suc 0) x y)))" for x y
  proof (intro conjI impI)
    assume "\<not> deep_equal x y"
    from diff_tree_differ [OF p this, of "Suc 0"]
    show "list_ex (\<lambda>t. t \<noteq> Equal) (map fst (diff_tree opts (Suc 0) x y))"
      by (simp add: list_ex_iff)
  next
    assume "is_scalar x \<and> is_scalar y \<and> x \<noteq> y"
    then show "map fst (diff_tree opts (Suc 0) x y) =
        (if too_deep (maxDepth opts) (Suc 0) \<or> showModifications opts then [Modify]
         else [Remove, Add])"
      by (simp add: diff_tree_scalars)
  next
    assume "x = y"
    from diff_tree_same [OF this, of opts "Suc 0"]
    show "list_all (\<lambda>t. t = Equal) (map fst (diff_tree opts (Suc 0) x y))"
      by (simp add: list_all_iff)
  qed
  then show "list_all (\<lambda>(x, y).
          (\<not> deep_equal x y \<longrightarrow>
             list_ex (\<lambda>t. t \<noteq> Equal) (map fst (diff_tree opts (Suc 0) x y))) \<and>
          (is_scalar x \<and> is_scalar y \<and> x \<noteq> y \<longrightarrow>
             map fst (diff_tree opts (Suc 0) x y) =
               (if too_deep (maxDepth opts) (Suc 0) \<or> showModifications opts then [Modify]
                else [Remove, Add])) \<and>
          (x = y \<longrightarrow> list_all (\<lambda>t. t = Equal) (map fst (diff_tree opts (Suc 0) x y))))
        (zip post (e # post))"
    by (simp add: list_all_iff case_prod_unfold)
qed

theorem insertion_strategies_witness:
  \<open>arrayDiffMethod (script_options\<lparr>arrayDiffMethod := Alignment\<rparr>) = Alignment \<and>
   count_list (map rtype (concat (diff (\<lambda>c. []) (script_options\<lparr>arrayDiffMethod := Alignment\<rparr>)
      (JArr ([JNum (js ''1'')] @ [JNum (js ''2''), JNum (js ''3'')]))
      (JArr ([JNum (js ''1'')] @ JNum (js ''9'') # [JNum (js ''2''), JNum (js ''3'')]))))) Add = 1 \<and>
   arrayDiffMethod script_options = Positional \<and>
   \<not> deep_equal (JNum (js ''2'')) (JNum (js ''9'')) \<and>
   list_ex (\<lambda>t. t \<noteq> Equal)
     (map fst (diff_tree script_options (Suc 0) (JNum (js ''2'')) (JNum (js ''9'')))) \<and>
   map rtype (concat (diff (\<lambda>c. []) script_options
      (JArr ([JNum (js ''1'')] @ [JNum (js ''2''), JNum (js ''3'')]))
      (JArr ([JNum (js ''1'')] @ JNum (js ''9'') # [JNum (js ''2''), JNum (js ''3'')])))) =
     [Equal, Modify, Modify, Add]\<close>
proof -
  have a: "arrayDiffMethod (script_options\<lparr>arrayDiffMethod := Alignment\<rparr>) = Alignment"
    by simp
  have p: "arrayDiffMethod script_options = Positional"
    by (simp add: script_options_def)
  have m: "showModifications script_options"
    by (simp add: script_options_def)
  have sc: \<open>is_scalar (JNum (js ''2''))\<close> \<open>is_scalar (JNum (js ''3''))\<close> \<open>is_scalar (JNum (js ''9''))\<close>
    by (simp_all add: is_scalar_def is_object_def is_array_def)
  have ne: \<open>JNum (js ''2'') \<noteq> JNum (js ''9'')\<close> \<open>JNum (js ''3'') \<noteq> JNum (js ''2'')\<close>
    by (simp_all add: js_def)
  have d: \<open>\<not> deep_equal (JNum (js ''2'')) (JNum (js ''9''))\<close>
    using ne by (subst deep_equal.simps) (simp add: is_object_def is_array_def)
  have e: \<open>map fst (diff_tree script_options (Suc 0) (JNum (js ''1'')) (JNum (js ''1''))) = [Equal]\<close>
    by code_simp
  note t = insertion_strategies [where describe = "\<lambda>c. []" and pre = "[JNum (js ''1'')]"
      and post = "[JNum (js ''2''), JNum (js ''3'')]" and e = "JNum (js ''9'')"]
  note al = t [THEN conjunct1, rule_format, OF a, THEN conjunct1]
  note po = t [THEN conjunct2, rule_format, OF p]
  from po [THEN conjunct2, THEN conjunct2] sc ne d m
  have g: \<open>list_ex (\<lambda>t. t \<noteq> Equal)
        (map fst (diff_tree script_options (Suc 0) (JNum (js ''2'')) (JNum (js ''9''))))\<close>
    \<open>map fst (diff_tree script_options (Suc 0) (JNum (js ''2'')) (JNum (js ''9''))) = [Modify]\<close>
    \<open>map fst (diff_tree script_options (Suc 0) (JNum (js ''3'')) (JNum (js ''2''))) = [Modify]\<close>
    by simp_all
  from po [THEN conjunct1] e g
  have \<open>map rtype (concat (diff (\<lambda>c. []) script_options
      (JArr ([JNum (js ''1'')] @ [JNum (js ''2''), JNum (js ''3'')]))
      (JArr ([JNum (js ''1'')] @ JNum (js ''9'') # [JNum (js ''2''), JNum (js ''3'')])))) =
     [Equal, Modify, Modify, Add]\<close>
    by simp
  with al a p d g(1) show ?thesis by blast
qed

text \<open>
  C9, as stated, says that under the positional strategy every element from the
  insertion point onward yields \<open>modify\<close>, \<open>remove\<close> or \<open>add\<close> records. Inserting \<open>1\<close> at
  the front of \<open>[1, 1]\<close> pairs equal elements at both indices: two \<open>equal\<close> records and one
  \<open>add\<close>.
\<close>

theorem insertion_positional_counterexample:
  \<open>map rtype (concat (diff (\<lambda>c. []) script_options
      (JArr [JNum (js ''1''), JNum (js ''1'')])
      (JArr [JNum (js ''1''), JNum (js ''1''), JNum (js ''1'')]))) =
     [Equal, Equal, Add]\<close>
  by code_simp

end
